theory Spec2Isabelle
  imports Main "HOL-Library.Word"
begin

section \<open>The cyber recorder (cyber/tools/cyber\_recorder/recorder.cc)\<close>

text \<open>
  A shallow embedding of class \<open>Recorder\<close>. The member variables of the class are the
  fields of the record \<open>recorder\<close>; a member \<open>x_\<close> of the source is the field \<open>x\<close>
  here (a trailing underscore is not a legal name), and \<open>output_\<close> is \<open>output_file\<close>
  (\<open>output\<close> is a keyword). Every call the recorder makes to
  one of its collaborators (the record writer, the node, the channel manager, the
  logging macros) is appended, in program order, to the field \<open>trace\<close>, which is not a
  member of the class but the observable history of the session.

  The collaborators are outside this file of the repository. What they answer is taken
  from an environment \<open>env\<close>: each answer may depend on everything that happened so far
  (the trace) and on the arguments of the call.

  Dereferencing a null \<open>shared_ptr\<close> is undefined behaviour in the source; in the model
  the operation then yields \<open>None\<close>.
\<close>

subsection \<open>Data\<close>

datatype severity = DEBUG | WARN | ERROR

type_synonym raw_message = string

datatype event =
    WriterOpen string bool
  | WriterClose
  | WriteChannel string string string bool
  | WriteMessage string raw_message "64 word" bool
  | ShowProgress
  | CreateNode string bool
  | GetWriters
  | AddChangeListener bool
  | RemoveChangeListener
  | CreateReader string "32 word" bool
  | Log severity string

text \<open>
  \<open>proto::RoleAttributes\<close>: three optional string fields. \<open>has_x()\<close> tells whether the
  field is set, and the getter \<open>x()\<close> returns the empty string for a field that is not.
\<close>

record role_attributes =
  channel_name_field :: "string option"
  message_type_field :: "string option"
  proto_desc_field :: "string option"

definition has_channel_name :: "role_attributes \<Rightarrow> bool" where
  "has_channel_name ra = (channel_name_field ra \<noteq> None)"

definition channel_name :: "role_attributes \<Rightarrow> string" where
  "channel_name ra = (case channel_name_field ra of None \<Rightarrow> [] | Some v \<Rightarrow> v)"

definition has_message_type :: "role_attributes \<Rightarrow> bool" where
  "has_message_type ra = (message_type_field ra \<noteq> None)"

definition message_type :: "role_attributes \<Rightarrow> string" where
  "message_type ra = (case message_type_field ra of None \<Rightarrow> [] | Some v \<Rightarrow> v)"

definition has_proto_desc :: "role_attributes \<Rightarrow> bool" where
  "has_proto_desc ra = (proto_desc_field ra \<noteq> None)"

definition proto_desc :: "role_attributes \<Rightarrow> string" where
  "proto_desc ra = (case proto_desc_field ra of None \<Rightarrow> [] | Some v \<Rightarrow> v)"

text \<open>
  \<open>proto::RoleType\<close> is declared outside this file; the recorder only compares it with
  \<open>ROLE_WRITER\<close>, so every other value is \<open>ROLE_OTHER\<close> with its number.
\<close>

datatype role_type_t = ROLE_WRITER | ROLE_OTHER nat

record change_msg =
  role_type :: role_type_t
  role_attr :: role_attributes

datatype record_writer = RecordWriter
datatype node = Node string
datatype reader = Reader string "32 word"

record recorder =
  output_file :: string
  all_channels :: bool
  channel_vec :: "string list"
  record_conf :: "32 word"
  is_started :: bool
  is_stopping :: bool
  writer :: "record_writer option"
  node :: "node option"
  change_conn :: bool
  channel_reader_map :: "string \<rightharpoonup> reader"
  trace :: "event list"

text \<open>
  \<open>record_conf\<close> holds the one value the recorder reads from its configuration,
  \<open>reader_pending_queue_size()\<close>; \<open>change_conn\<close> holds what \<open>IsConnected()\<close> answers.
\<close>

record env =
  getpid :: int
  config_reader_pending_queue_size :: "32 word"
  shared_from_this_ok :: "event list \<Rightarrow> bool"
  Open_result :: "event list \<Rightarrow> string \<Rightarrow> bool"
  CreateNode_result :: "event list \<Rightarrow> string \<Rightarrow> bool"
  GetWriters_result :: "event list \<Rightarrow> role_attributes list"
  AddChangeListener_result :: "event list \<Rightarrow> bool"
  WriteChannel_result :: "event list \<Rightarrow> string \<Rightarrow> string \<Rightarrow> string \<Rightarrow> bool"
  CreateReader_result :: "event list \<Rightarrow> string \<Rightarrow> bool"
  WriteMessage_result :: "event list \<Rightarrow> string \<Rightarrow> raw_message \<Rightarrow> 64 word \<Rightarrow> bool"
  Time_Now :: "event list \<Rightarrow> 64 word"

definition emit :: "event \<Rightarrow> recorder \<Rightarrow> recorder" where
  "emit e s = s\<lparr>trace := trace s @ [e]\<rparr>"

subsection \<open>\<open>std::to_string\<close> on an \<open>int\<close>\<close>

fun to_string_nat :: "nat \<Rightarrow> string" where
  "to_string_nat n =
     (if n < 10 then [char_of (48 + n)]
      else to_string_nat (n div 10) @ [char_of (48 + n mod 10)])"

definition to_string :: "int \<Rightarrow> string" where
  "to_string i = (if i < 0 then CHR ''-'' # to_string_nat (nat (- i)) else to_string_nat (nat i))"

subsection \<open>Construction\<close>

text \<open>
  Modelled from the spec: the default member initialisers of \<open>is_started_\<close> and
  \<open>is_stopping_\<close> are in recorder.h, which is missing; the spec says a session is created
  \<open>Idle\<close>, so both start \<open>False\<close>. The smart pointers and the map are
  default-constructed (null, empty), and a default-constructed connection is not
  connected.
\<close>

definition Recorder :: "env \<Rightarrow> string \<Rightarrow> bool \<Rightarrow> string list \<Rightarrow> recorder" where
  "Recorder e output_arg all_channels_arg channel_vec_arg =
     \<lparr> output_file = output_arg,
       all_channels = all_channels_arg,
       channel_vec = channel_vec_arg,
       record_conf = config_reader_pending_queue_size e,
       is_started = False,
       is_stopping = False,
       writer = None,
       node = None,
       change_conn = False,
       channel_reader_map = Map.empty,
       trace = [] \<rparr>"

subsection \<open>\<open>Recorder::InitReaderImpl\<close>\<close>

text \<open>
  \<open>shared_from_this()\<close> throws \<open>std::bad_weak_ptr\<close> when no \<open>shared_ptr\<close> owns the
  recorder; the handler logs \<open>e.what()\<close> and returns false. Otherwise the reader is
  created through \<open>node_\<close>, and entered in the map when it is not null.
\<close>

definition InitReaderImpl ::
  "env \<Rightarrow> string \<Rightarrow> string \<Rightarrow> recorder \<Rightarrow> (bool \<times> recorder) option" where
  "InitReaderImpl e cname mtype s =
     (if \<not> shared_from_this_ok e (trace s) then
        Some (False, emit (Log ERROR ''bad_weak_ptr'') s)
      else
        (case node s of
           None \<Rightarrow> None
         | Some nd \<Rightarrow>
             (let created = CreateReader_result e (trace s) cname;
                  s1 = emit (CreateReader cname (record_conf s) created) s
              in if \<not> created then
                   Some (False, emit (Log ERROR ''Create reader failed.'') s1)
                 else
                   Some (True, s1\<lparr>channel_reader_map :=
                     (channel_reader_map s1)(cname \<mapsto> Reader cname (record_conf s))\<rparr>))))"

subsection \<open>\<open>Recorder::FindNewChannel\<close>\<close>

definition FindNewChannel :: "env \<Rightarrow> role_attributes \<Rightarrow> recorder \<Rightarrow> recorder option" where
  "FindNewChannel e ra s =
     (if \<not> has_channel_name ra \<or> channel_name ra = [] then
        Some (emit (Log WARN ''change message not has a channel name or has an empty one.'') s)
      else if \<not> has_message_type ra \<or> message_type ra = [] then
        Some (emit (Log WARN ''Change message not has a message type or has an empty one.'') s)
      else if \<not> has_proto_desc ra \<or> proto_desc ra = [] then
        Some (emit (Log WARN ''Change message not has a proto desc or has an empty one.'') s)
      else if \<not> all_channels s \<and> channel_name ra \<notin> set (channel_vec s) then
        Some (emit (Log DEBUG ''New channel was found, but not in record list.'') s)
      else if channel_reader_map s (channel_name ra) = None then
        (case writer s of
           None \<Rightarrow> None
         | Some w \<Rightarrow>
             (let written = WriteChannel_result e (trace s)
                              (channel_name ra) (message_type ra) (proto_desc ra);
                  s1 = emit (WriteChannel (channel_name ra) (message_type ra) (proto_desc ra)
                               written) s;
                  s2 = (if \<not> written then
                          emit (Log ERROR (''write channel fail, channel:'' @ channel_name ra)) s1
                        else s1)
              in map_option snd (InitReaderImpl e (channel_name ra) (message_type ra) s2)))
      else Some s)"

subsection \<open>\<open>Recorder::TopologyCallback\<close>\<close>

text \<open>The debug line also prints the message; the rendering is not part of the model.\<close>

definition TopologyCallback :: "env \<Rightarrow> change_msg \<Rightarrow> recorder \<Rightarrow> recorder option" where
  "TopologyCallback e change_message s =
     (let s1 = emit (Log DEBUG ''ChangeMsg in Topology Callback:'') s
      in if role_type change_message \<noteq> ROLE_WRITER then
           Some (emit (Log DEBUG ''Change message role type is not ROLE_WRITER.'') s1)
         else FindNewChannel e (role_attr change_message) s1)"

subsection \<open>\<open>Recorder::InitReadersImpl\<close>\<close>

text \<open>The loop over \<open>role_attr_vec\<close>.\<close>

fun FindNewChannel_loop :: "env \<Rightarrow> role_attributes list \<Rightarrow> recorder \<Rightarrow> recorder option" where
  "FindNewChannel_loop e [] s = Some s"
| "FindNewChannel_loop e (ra # ras) s =
     (case FindNewChannel e ra s of
        None \<Rightarrow> None
      | Some s1 \<Rightarrow> FindNewChannel_loop e ras s1)"

definition InitReadersImpl :: "env \<Rightarrow> recorder \<Rightarrow> (bool \<times> recorder) option" where
  "InitReadersImpl e s =
     (let role_attr_vec = GetWriters_result e (trace s);
          s0 = emit GetWriters s
      in case FindNewChannel_loop e role_attr_vec s0 of
           None \<Rightarrow> None
         | Some s1 \<Rightarrow>
             (let connected = AddChangeListener_result e (trace s1);
                  s2 = (emit (AddChangeListener connected) s1)\<lparr>change_conn := connected\<rparr>
              in if \<not> change_conn s2 then
                   Some (False, emit (Log ERROR ''change connection is not connected'') s2)
                 else Some (True, s2)))"

subsection \<open>\<open>Recorder::FreeReadersImpl\<close>\<close>

definition FreeReadersImpl :: "recorder \<Rightarrow> bool \<times> recorder" where
  "FreeReadersImpl s = (True, emit RemoveChangeListener s)"

subsection \<open>\<open>Recorder::Start\<close> and \<open>Recorder::Stop\<close>\<close>

definition Start :: "env \<Rightarrow> recorder \<Rightarrow> (bool \<times> recorder) option" where
  "Start e s =
     (let s1 = s\<lparr>writer := Some RecordWriter\<rparr>;
          opened = Open_result e (trace s1) (output_file s1);
          s2 = emit (WriterOpen (output_file s1) opened) s1
      in if \<not> opened then
           Some (False, emit (Log ERROR ''Datafile open file error.'') s2)
         else
           (let node_name = ''cyber_recorder_record_'' @ to_string (getpid e);
                created = CreateNode_result e (trace s2) node_name;
                s3 = (emit (CreateNode node_name created) s2)
                       \<lparr>node := (if created then Some (Node node_name) else None)\<rparr>
            in if node s3 = None then
                 Some (False, emit (Log ERROR (''create node failed, node: '' @ node_name)) s3)
               else
                 (case InitReadersImpl e s3 of
                    None \<Rightarrow> None
                  | Some (ok, s4) \<Rightarrow>
                      if \<not> ok then Some (False, emit (Log ERROR '' _init_readers error.'') s4)
                      else Some (True, s4\<lparr>is_started := True\<rparr>))))"

definition Stop :: "recorder \<Rightarrow> (bool \<times> recorder) option" where
  "Stop s =
     (if \<not> is_started s \<or> is_stopping s then Some (False, s)
      else
        (let s1 = s\<lparr>is_stopping := True\<rparr>;
             freed = FreeReadersImpl s1
         in if \<not> fst freed then
              Some (False, emit (Log ERROR '' _free_readers error.'') (snd freed))
            else
              (case writer (snd freed) of
                 None \<Rightarrow> None
               | Some w \<Rightarrow> Some (True, (emit WriterClose (snd freed))\<lparr>node := None\<rparr>))))"

subsection \<open>\<open>Recorder::~Recorder\<close>\<close>

text \<open>The body of the destructor: one call of \<open>Stop\<close>, its result dropped.\<close>

definition Recorder_destructor :: "recorder \<Rightarrow> recorder option" where
  "Recorder_destructor s = map_option snd (Stop s)"

subsection \<open>\<open>Recorder::ReaderCallback\<close> and the callback of a reader\<close>

text \<open>A message is a \<open>shared_ptr<RawMessage>\<close>: \<open>None\<close> is the null pointer.\<close>

definition ReaderCallback ::
  "env \<Rightarrow> raw_message option \<Rightarrow> string \<Rightarrow> recorder \<Rightarrow> recorder option" where
  "ReaderCallback e message cname s =
     (if \<not> is_started s \<or> is_stopping s then
        Some (emit (Log ERROR ''record procedure is not started or stopping.'') s)
      else
        (case message of
           None \<Rightarrow> Some (emit (Log ERROR (''message is nullptr, channel: '' @ cname)) s)
         | Some m \<Rightarrow>
             (case writer s of
                None \<Rightarrow> None
              | Some w \<Rightarrow>
                  (let now = Time_Now e (trace s);
                       written = WriteMessage_result e (trace s) cname m now;
                       s1 = emit (WriteMessage cname m now written) s
                   in if \<not> written then
                        Some (emit (Log ERROR (''write data fail, channel: '' @ cname)) s1)
                      else Some s1))))"

text \<open>
  The lambda that \<open>InitReaderImpl\<close> hands to \<open>CreateReader\<close>, for the channel \<open>cname\<close> it
  captured. \<open>locked\<close> tells whether \<open>weak_this.lock()\<close> yields the recorder; when it does
  not, the recorder is gone and there is no state to change.
\<close>

definition callback ::
  "env \<Rightarrow> bool \<Rightarrow> string \<Rightarrow> raw_message option \<Rightarrow> recorder \<Rightarrow> recorder option" where
  "callback e locked cname raw_msg s =
     (if \<not> locked then Some s
      else
        (case ReaderCallback e raw_msg cname s of
           None \<Rightarrow> None
         | Some s1 \<Rightarrow>
             (case writer s1 of
                None \<Rightarrow> None
              | Some w \<Rightarrow> Some (emit ShowProgress s1))))"

subsection \<open>A session lifetime\<close>

text \<open>
  What can happen to one recorder between its construction and its destruction: the
  two public operations, a notification of the channel manager, and a delivery on the
  callback of a channel. A lifetime is any sequence of these; it ends in \<open>None\<close> when
  the source would dereference a null pointer.
\<close>

datatype op =
    OpStart
  | OpStop
  | OpTopologyCallback change_msg
  | OpCallback string "raw_message option"

fun step :: "env \<Rightarrow> op \<Rightarrow> recorder \<Rightarrow> recorder option" where
  "step e OpStart s = map_option snd (Start e s)"
| "step e OpStop s = map_option snd (Stop s)"
| "step e (OpTopologyCallback m) s = TopologyCallback e m s"
| "step e (OpCallback cname raw_msg) s = callback e True cname raw_msg s"

fun run :: "env \<Rightarrow> op list \<Rightarrow> recorder \<Rightarrow> recorder option" where
  "run e [] s = Some s"
| "run e (x # xs) s =
     (case step e x s of
        None \<Rightarrow> None
      | Some s1 \<Rightarrow> run e xs s1)"

subsection \<open>Vocabulary of the properties\<close>

text \<open>
  The validity invariant of a channel descriptor, in the words of the specification:
  a descriptor is usable only if all three fields are non-empty.
\<close>

definition usable :: "role_attributes \<Rightarrow> bool" where
  "usable ra =
     (channel_name_field ra \<noteq> None \<and> channel_name_field ra \<noteq> Some [] \<and>
      message_type_field ra \<noteq> None \<and> message_type_field ra \<noteq> Some [] \<and>
      proto_desc_field ra \<noteq> None \<and> proto_desc_field ra \<noteq> Some [])"

text \<open>
  The selection policy, in the words of the specification: a name is excluded when
  \<open>capture_all\<close> is false and the name is not in the allow-list.
\<close>

definition selected :: "recorder \<Rightarrow> string \<Rightarrow> bool" where
  "selected s n = (all_channels s \<or> n \<in> set (channel_vec s))"

fun is_WriteMessage :: "event \<Rightarrow> bool" where
  "is_WriteMessage (WriteMessage c m t ok) = True"
| "is_WriteMessage ev = False"

fun is_ShowProgress :: "event \<Rightarrow> bool" where
  "is_ShowProgress ShowProgress = True"
| "is_ShowProgress ev = False"

fun is_AddChangeListener :: "event \<Rightarrow> bool" where
  "is_AddChangeListener (AddChangeListener c) = True"
| "is_AddChangeListener ev = False"

text \<open>A reader for the channel \<open>n\<close> came into being: \<open>CreateReader\<close> answered a reader.\<close>

fun reader_created :: "string \<Rightarrow> event \<Rightarrow> bool" where
  "reader_created n (CreateReader c q ok) = (ok \<and> c = n)"
| "reader_created n ev = False"

definition readers_created :: "string \<Rightarrow> event list \<Rightarrow> nat" where
  "readers_created n tr = length (filter (reader_created n) tr)"

text \<open>
  The two calls that start a subscription to the channel \<open>n\<close>: the registration of its
  schema with the writer and the request for a reader, whatever they answer.
\<close>

fun subscribes_to :: "string \<Rightarrow> event \<Rightarrow> bool" where
  "subscribes_to n (CreateReader c q ok) = (c = n)"
| "subscribes_to n (WriteChannel c t d ok) = (c = n)"
| "subscribes_to n ev = False"

definition created_once :: "recorder \<Rightarrow> string \<Rightarrow> bool" where
  "created_once s n \<longleftrightarrow>
     readers_created n (trace s) = (if channel_reader_map s n = None then 0 else 1)"

definition never_subscribed :: "recorder \<Rightarrow> string \<Rightarrow> bool" where
  "never_subscribed s n \<longleftrightarrow>
     channel_reader_map s n = None \<and> list_all (\<lambda>ev. \<not> subscribes_to n ev) (trace s)"

text \<open>
  The state in which \<open>FindNewChannel\<close> calls \<open>InitReaderImpl\<close>: after the call of
  \<open>WriteChannel\<close>, and after the error line when that call failed.
\<close>

definition after_WriteChannel :: "env \<Rightarrow> role_attributes \<Rightarrow> recorder \<Rightarrow> recorder" where
  "after_WriteChannel e ra s =
     (if WriteChannel_result e (trace s) (channel_name ra) (message_type ra) (proto_desc ra)
      then emit (WriteChannel (channel_name ra) (message_type ra) (proto_desc ra) True) s
      else emit (Log ERROR (''write channel fail, channel:'' @ channel_name ra))
             (emit (WriteChannel (channel_name ra) (message_type ra) (proto_desc ra) False) s))"

subsection \<open>A concrete session\<close>

text \<open>
  The end-to-end scenario of the specification: every collaborator succeeds, and the
  snapshot of the topology holds the one channel \<open>/chatter\<close>.
\<close>

definition chatter :: role_attributes where
  "chatter = \<lparr> channel_name_field = Some ''/chatter'', message_type_field = Some ''T'',
               proto_desc_field = Some ''S'' \<rparr>"

definition no_schema :: role_attributes where
  "no_schema = \<lparr> channel_name_field = Some ''/chatter'', message_type_field = Some ''T'',
                 proto_desc_field = Some [] \<rparr>"

definition env_ok :: env where
  "env_ok = \<lparr> getpid = 4242,
      config_reader_pending_queue_size = 50,
      shared_from_this_ok = (\<lambda>tr. True),
      Open_result = (\<lambda>tr p. True),
      CreateNode_result = (\<lambda>tr n. True),
      GetWriters_result = (\<lambda>tr. [chatter]),
      AddChangeListener_result = (\<lambda>tr. True),
      WriteChannel_result = (\<lambda>tr n t d. True),
      CreateReader_result = (\<lambda>tr n. True),
      WriteMessage_result = (\<lambda>tr n m t. True),
      Time_Now = (\<lambda>tr. 1000) \<rparr>"

definition idle_session :: recorder where
  "idle_session = Recorder env_ok ''out.record'' True []"

definition started_session :: recorder where
  "started_session =
     \<lparr> output_file = ''out.record'', all_channels = True, channel_vec = [],
       record_conf = 50, is_started = True, is_stopping = False,
       writer = Some RecordWriter, node = Some (Node ''cyber_recorder_record_4242''),
       change_conn = True,
       channel_reader_map = [''/chatter'' \<mapsto> Reader ''/chatter'' 50],
       trace = [WriterOpen ''out.record'' True,
                CreateNode ''cyber_recorder_record_4242'' True,
                GetWriters,
                WriteChannel ''/chatter'' ''T'' ''S'' True,
                CreateReader ''/chatter'' 50 True,
                AddChangeListener True] \<rparr>"

definition stopped_session :: recorder where
  "stopped_session =
     started_session\<lparr> is_stopping := True, node := None,
       trace := trace started_session @ [RemoveChangeListener, WriterClose] \<rparr>"

text \<open>
  \<open>extends_by P s s'\<close>: the trace of \<open>s'\<close> is the trace of \<open>s\<close> followed by events that
  all satisfy \<open>P\<close>.
\<close>

definition extends_by :: "(event \<Rightarrow> bool) \<Rightarrow> recorder \<Rightarrow> recorder \<Rightarrow> bool" where
  "extends_by P s s' \<longleftrightarrow>
     take (length (trace s)) (trace s') = trace s \<and>
     list_all P (drop (length (trace s)) (trace s'))"

definition pose :: role_attributes where
  "pose = \<lparr> channel_name_field = Some ''/pose'', message_type_field = Some ''T2'',
            proto_desc_field = Some ''S2'' \<rparr>"

definition env_no_disk :: env where
  "env_no_disk = env_ok\<lparr> WriteChannel_result := (\<lambda>tr n t d. False),
                          WriteMessage_result := (\<lambda>tr n m t. False) \<rparr>"

definition env_unconnected :: env where
  "env_unconnected = env_ok\<lparr> AddChangeListener_result := (\<lambda>tr. False) \<rparr>"

definition unconnected_session :: recorder where
  "unconnected_session =
     \<lparr> output_file = ''out.record'', all_channels = True, channel_vec = [],
       record_conf = 50, is_started = False, is_stopping = False,
       writer = Some RecordWriter, node = Some (Node ''cyber_recorder_record_4242''),
       change_conn = False,
       channel_reader_map = [''/chatter'' \<mapsto> Reader ''/chatter'' 50],
       trace = [WriterOpen ''out.record'' True,
                CreateNode ''cyber_recorder_record_4242'' True,
                GetWriters,
                WriteChannel ''/chatter'' ''T'' ''S'' True,
                CreateReader ''/chatter'' 50 True,
                AddChangeListener False,
                Log ERROR ''change connection is not connected'',
                Log ERROR '' _init_readers error.''] \<rparr>"

fun is_subscription :: "event \<Rightarrow> bool" where
  "is_subscription (CreateReader c q ok) = True"
| "is_subscription (WriteChannel c t d ok) = True"
| "is_subscription ev = False"

text \<open>
  \<open>keeps s s'\<close>: going from \<open>s\<close> to \<open>s'\<close> leaves the selection policy as it is and
  preserves, for every channel name, that its reader was created as often as the map
  says, and that a name the policy excludes was never subscribed to.
\<close>

definition keeps :: "recorder \<Rightarrow> recorder \<Rightarrow> bool" where
  "keeps s s' \<longleftrightarrow>
     all_channels s' = all_channels s \<and> channel_vec s' = channel_vec s \<and>
     (\<forall>n. created_once s n \<longrightarrow> created_once s' n) \<and>
     (\<forall>n. \<not> selected s n \<longrightarrow> never_subscribed s n \<longrightarrow> never_subscribed s' n)"

text \<open>The policy example of the specification: only \<open>a\<close> and \<open>b\<close> are recorded.\<close>

definition descriptor_a :: role_attributes where
  "descriptor_a = \<lparr> channel_name_field = Some ''a'', message_type_field = Some ''T'',
                    proto_desc_field = Some ''S'' \<rparr>"

definition descriptor_c :: role_attributes where
  "descriptor_c = \<lparr> channel_name_field = Some ''c'', message_type_field = Some ''T'',
                    proto_desc_field = Some ''S'' \<rparr>"

definition env_ac :: env where
  "env_ac = env_ok\<lparr> GetWriters_result := (\<lambda>tr. [descriptor_a, descriptor_c]) \<rparr>"

definition writer_of :: "role_attributes \<Rightarrow> change_msg" where
  "writer_of ra = \<lparr> role_type = ROLE_WRITER, role_attr = ra \<rparr>"

definition filtered_session :: recorder where
  "filtered_session = Recorder env_ac ''out.record'' False [''a'', ''b'']"

text \<open>The schema of the channel \<open>n\<close> was handed to the writer: a call of \<open>WriteChannel\<close>.\<close>

fun is_WriteChannel_for :: "string \<Rightarrow> event \<Rightarrow> bool" where
  "is_WriteChannel_for n (WriteChannel c t d ok) = (c = n)"
| "is_WriteChannel_for n ev = False"

definition after_pose_session :: recorder where
  "after_pose_session =
     started_session\<lparr>
       channel_reader_map := (channel_reader_map started_session)
                               (''/pose'' \<mapsto> Reader ''/pose'' 50),
       trace := trace started_session @
         [WriteChannel ''/pose'' ''T2'' ''S2'' False,
          Log ERROR ''write channel fail, channel:/pose'',
          CreateReader ''/pose'' 50 True]\<rparr>"

definition after_pose_a_session :: recorder where
  "after_pose_a_session =
     after_pose_session\<lparr>
       channel_reader_map := (channel_reader_map after_pose_session)
                               (''a'' \<mapsto> Reader ''a'' 50),
       trace := trace after_pose_session @
         [WriteChannel ''a'' ''T'' ''S'' False,
          Log ERROR ''write channel fail, channel:a'',
          CreateReader ''a'' 50 True]\<rparr>"

section \<open>Properties\<close>

subsection \<open>Basic facts\<close>

lemma usable_iff:
  "usable ra \<longleftrightarrow> \<not> (\<not> has_channel_name ra \<or> channel_name ra = []) \<and>
     \<not> (\<not> has_message_type ra \<or> message_type ra = []) \<and>
     \<not> (\<not> has_proto_desc ra \<or> proto_desc ra = [])"
  by (auto simp: usable_def has_channel_name_def channel_name_def has_message_type_def
      message_type_def has_proto_desc_def proto_desc_def split: option.splits)

lemma readers_created_simps [simp]:
  "readers_created n [] = 0"
  "readers_created n (xs @ ys) = readers_created n xs + readers_created n ys"
  "readers_created n (ev # xs) = (if reader_created n ev then 1 else 0) + readers_created n xs"
  by (simp_all add: readers_created_def)

lemma emit_simps [simp]:
  "trace (emit ev s) = trace s @ [ev]"
  "channel_reader_map (emit ev s) = channel_reader_map s"
  "all_channels (emit ev s) = all_channels s"
  "channel_vec (emit ev s) = channel_vec s"
  "is_started (emit ev s) = is_started s"
  "is_stopping (emit ev s) = is_stopping s"
  "writer (emit ev s) = writer s"
  "node (emit ev s) = node s"
  "record_conf (emit ev s) = record_conf s"
  "change_conn (emit ev s) = change_conn s"
  "output_file (emit ev s) = output_file s"
  by (simp_all add: emit_def)

lemma selected_emit [simp]: "selected (emit ev s) n = selected s n"
  by (simp add: selected_def)

lemma to_string_pid: "to_string 4242 = ''4242''"
  by code_simp

text \<open>The concrete session is one the code runs through.\<close>

lemma Start_idle_session: "Start env_ok idle_session = Some (True, started_session)"
  by (simp add: Start_def idle_session_def Recorder_def env_ok_def InitReadersImpl_def
      FindNewChannel_def InitReaderImpl_def chatter_def started_session_def emit_def
      has_channel_name_def channel_name_def has_message_type_def message_type_def
      has_proto_desc_def proto_desc_def to_string_pid Let_def)

lemma Stop_started_session: "Stop started_session = Some (True, stopped_session)"
  by (simp add: Stop_def started_session_def stopped_session_def FreeReadersImpl_def emit_def)

subsection \<open>The delivery callback outside \<open>Started\<close>\<close>

text \<open>
  Claim C1. While the session is not started or is stopping (\<open>is_started_\<close> false or
  \<open>is_stopping_\<close> true), \<open>ReaderCallback\<close> writes one error line and returns: the
  state is otherwise untouched and the payload is dropped. The callback of a reader
  then adds to the trace no call of \<open>WriteMessage\<close>, whether the recorder is
  still alive or not.
\<close>

theorem C1_no_write_outside_started:
  assumes "\<not> is_started s \<or> is_stopping s"
  shows "ReaderCallback e msg cname s =
           Some (emit (Log ERROR ''record procedure is not started or stopping.'') s) \<and>
         (\<forall>locked s'. callback e locked cname msg s = Some s' \<longrightarrow>
            (\<exists>evs. s' = s\<lparr>trace := trace s @ evs\<rparr> \<and>
                   list_all (\<lambda>ev. \<not> is_WriteMessage ev) evs))"
proof -
  let ?line = "Log ERROR ''record procedure is not started or stopping.''"
  have rc: "ReaderCallback e msg cname s = Some (emit ?line s)"
    using assms by (auto simp: ReaderCallback_def)
  have "\<exists>evs. s' = s\<lparr>trace := trace s @ evs\<rparr> \<and> list_all (\<lambda>ev. \<not> is_WriteMessage ev) evs"
    if cb: "callback e locked cname msg s = Some s'" for locked s'
  proof (cases locked)
    case False
    with cb have "s' = s\<lparr>trace := trace s @ []\<rparr>"
      by (simp add: callback_def)
    then show ?thesis by (intro exI[of _ "[]"]) simp
  next
    case True
    with cb rc have "s' = s\<lparr>trace := trace s @ [?line, ShowProgress]\<rparr>"
      by (auto simp: callback_def emit_def split: option.splits)
    then show ?thesis by (intro exI[of _ "[?line, ShowProgress]"]) simp
  qed
  with rc show ?thesis by blast
qed

theorem C1_no_write_outside_started_witness:
  "is_stopping stopped_session \<and>
   ReaderCallback env_ok (Some ''P'') ''/chatter'' stopped_session =
     Some (emit (Log ERROR ''record procedure is not started or stopping.'') stopped_session) \<and>
   callback env_ok True ''/chatter'' (Some ''P'') stopped_session =
     Some (stopped_session\<lparr>trace := trace stopped_session @
       [Log ERROR ''record procedure is not started or stopping.'', ShowProgress]\<rparr>)"
proof -
  have st: "\<not> is_started stopped_session \<or> is_stopping stopped_session"
    by (simp add: stopped_session_def)
  from C1_no_write_outside_started[OF st, of env_ok "Some ''P''" "''/chatter''"]
  have rc: "ReaderCallback env_ok (Some ''P'') ''/chatter'' stopped_session =
     Some (emit (Log ERROR ''record procedure is not started or stopping.'') stopped_session)"
    by blast
  have "writer stopped_session = Some RecordWriter"
    by (simp add: stopped_session_def started_session_def)
  with rc st show ?thesis
    by (simp add: callback_def emit_def stopped_session_def)
qed

subsection \<open>Descriptors that are not usable\<close>

text \<open>
  Claim C5. A descriptor in which the channel name, the message type or the schema is
  absent or empty is rejected by \<open>FindNewChannel\<close> at once, whatever the selection
  policy and the rest of the state are: the call returns the state it was given with
  one warning line added to the trace. So the map of readers is as before, and neither
  \<open>WriteChannel\<close> nor \<open>CreateReader\<close> is called.
\<close>

theorem C5_unusable_descriptor_rejected:
  assumes "\<not> usable ra"
  shows "\<exists>line. FindNewChannel e ra s = Some (emit (Log WARN line) s)"
  using assms unfolding usable_iff FindNewChannel_def by auto

theorem C5_unusable_descriptor_rejected_witness:
  "FindNewChannel env_ok no_schema started_session =
     Some (emit (Log WARN ''Change message not has a proto desc or has an empty one.'')
             started_session)"
proof -
  have "\<not> usable no_schema" by (simp add: usable_def no_schema_def)
  from C5_unusable_descriptor_rejected[OF this, of env_ok started_session]
  obtain line where "FindNewChannel env_ok no_schema started_session =
      Some (emit (Log WARN line) started_session)" ..
  moreover have "FindNewChannel env_ok no_schema started_session =
     Some (emit (Log WARN ''Change message not has a proto desc or has an empty one.'')
             started_session)"
    by (simp add: FindNewChannel_def no_schema_def has_channel_name_def channel_name_def
        has_message_type_def message_type_def has_proto_desc_def proto_desc_def)
  ultimately show ?thesis by simp
qed

subsection \<open>\<open>Stop\<close>, twice, and the destructor\<close>

lemma Stop_not_started:
  assumes "\<not> is_started s \<or> is_stopping s"
  shows "Stop s = Some (False, s)"
  using assms by (auto simp: Stop_def)

lemma Stop_started:
  assumes "is_started s" "\<not> is_stopping s" "writer s \<noteq> None"
  shows "Stop s = Some (True, s\<lparr>is_stopping := True, node := None,
                                trace := trace s @ [RemoveChangeListener, WriterClose]\<rparr>)"
  using assms by (auto simp: Stop_def FreeReadersImpl_def emit_def)

text \<open>
  Claim C6. \<open>Stop\<close> on a session that is not started, or is stopping or stopped, returns
  false and leaves the state, trace included, as it was. On a started session (whose
  writer exists) the first \<open>Stop\<close> returns true after exactly the two teardown calls,
  the removal of the change listener and the closing of the writer; a second \<open>Stop\<close>
  right after it returns false and adds nothing.
\<close>

theorem C6_stop_idempotent:
  "(\<not> is_started s \<or> is_stopping s \<longrightarrow> Stop s = Some (False, s)) \<and>
   (is_started s \<and> \<not> is_stopping s \<and> writer s \<noteq> None \<longrightarrow>
      (\<exists>s1. Stop s = Some (True, s1) \<and>
            trace s1 = trace s @ [RemoveChangeListener, WriterClose] \<and>
            Stop s1 = Some (False, s1)))"
proof (intro conjI impI)
  assume "\<not> is_started s \<or> is_stopping s"
  then show "Stop s = Some (False, s)" by (rule Stop_not_started)
next
  assume a: "is_started s \<and> \<not> is_stopping s \<and> writer s \<noteq> None"
  let ?s1 = "s\<lparr>is_stopping := True, node := None,
               trace := trace s @ [RemoveChangeListener, WriterClose]\<rparr>"
  from a have "Stop s = Some (True, ?s1)" by (simp add: Stop_started)
  moreover have "Stop ?s1 = Some (False, ?s1)" by (rule Stop_not_started) simp
  ultimately show "\<exists>s1. Stop s = Some (True, s1) \<and>
            trace s1 = trace s @ [RemoveChangeListener, WriterClose] \<and>
            Stop s1 = Some (False, s1)"
    by (intro exI[of _ ?s1]) simp
qed

theorem C6_stop_idempotent_witness:
  "Stop idle_session = Some (False, idle_session) \<and>
   Stop started_session = Some (True, stopped_session) \<and>
   trace stopped_session = trace started_session @ [RemoveChangeListener, WriterClose] \<and>
   Stop stopped_session = Some (False, stopped_session)"
proof -
  have idle: "\<not> is_started idle_session \<or> is_stopping idle_session"
    by (simp add: idle_session_def Recorder_def)
  have stopped: "\<not> is_started stopped_session \<or> is_stopping stopped_session"
    by (simp add: stopped_session_def)
  from C6_stop_idempotent[of idle_session] idle
  have "Stop idle_session = Some (False, idle_session)" by blast
  moreover from C6_stop_idempotent[of stopped_session] stopped
  have "Stop stopped_session = Some (False, stopped_session)" by blast
  moreover have
    "trace stopped_session = trace started_session @ [RemoveChangeListener, WriterClose]"
    by (simp add: stopped_session_def)
  ultimately show ?thesis by (simp add: Stop_started_session)
qed

text \<open>
  Claim C10. The destructor does what \<open>Stop\<close> does and drops the result. On a started
  session it performs the teardown of \<open>Stop\<close>: it removes the change listener and
  closes the writer. On a session that was never started, or that is stopping or
  stopped, it performs no step at all.
\<close>

theorem C10_destructor_stops:
  "Recorder_destructor s = map_option snd (Stop s) \<and>
   (is_started s \<and> \<not> is_stopping s \<and> writer s \<noteq> None \<longrightarrow>
      Recorder_destructor s =
        Some (s\<lparr>is_stopping := True, node := None,
                trace := trace s @ [RemoveChangeListener, WriterClose]\<rparr>)) \<and>
   (\<not> is_started s \<or> is_stopping s \<longrightarrow> Recorder_destructor s = Some s)"
  by (simp add: Recorder_destructor_def Stop_started Stop_not_started)

theorem C10_destructor_stops_witness:
  "Recorder_destructor started_session = Some stopped_session \<and>
   Recorder_destructor idle_session = Some idle_session \<and>
   Recorder_destructor stopped_session = Some stopped_session"
proof -
  have "is_started started_session \<and> \<not> is_stopping started_session \<and>
        writer started_session \<noteq> None"
    by (simp add: started_session_def)
  with C10_destructor_stops[of started_session]
  have "Recorder_destructor started_session =
        Some (started_session\<lparr>is_stopping := True, node := None,
                trace := trace started_session @ [RemoveChangeListener, WriterClose]\<rparr>)"
    by blast
  moreover have "\<not> is_started idle_session \<or> is_stopping idle_session"
    by (simp add: idle_session_def Recorder_def)
  with C10_destructor_stops[of idle_session]
  have "Recorder_destructor idle_session = Some idle_session" by blast
  moreover have "\<not> is_started stopped_session \<or> is_stopping stopped_session"
    by (simp add: stopped_session_def)
  with C10_destructor_stops[of stopped_session]
  have "Recorder_destructor stopped_session = Some stopped_session" by blast
  ultimately show ?thesis by (simp add: stopped_session_def)
qed

subsection \<open>\<open>Stop\<close> and the readers\<close>

text \<open>
  Claim C3 says that \<open>Stop\<close> on a started session tears down every reader, so that
  deliveries halt, before it closes the writer. The step of \<open>Stop\<close> that comes before
  \<open>writer_->Close()\<close> is \<open>FreeReadersImpl\<close>, and it frees no reader: whatever the
  started session, \<open>Stop\<close> succeeds, its only calls are the removal of the change
  listener and the closing of the writer, the node is released after that, and the
  map of readers is exactly as it was. Deliveries do not halt either: after \<open>Stop\<close>
  the callback of a reader still runs, is turned away only at the check of
  \<open>ReaderCallback\<close>, and reports progress on the closed writer.
\<close>

theorem C3_stop_frees_no_reader:
  assumes "is_started s" "\<not> is_stopping s" "writer s \<noteq> None"
  shows "\<exists>s'. Stop s = Some (True, s') \<and>
           is_stopping s' \<and>
           node s' = None \<and>
           channel_reader_map s' = channel_reader_map s \<and>
           trace s' = trace s @ [RemoveChangeListener, WriterClose] \<and>
           (\<forall>e cname msg. callback e True cname msg s' =
              Some (s'\<lparr>trace := trace s' @
                [Log ERROR ''record procedure is not started or stopping.'',
                 ShowProgress]\<rparr>))"
proof -
  let ?s1 = "s\<lparr>is_stopping := True, node := None,
               trace := trace s @ [RemoveChangeListener, WriterClose]\<rparr>"
  have "Stop s = Some (True, ?s1)" using assms by (rule Stop_started)
  moreover have "callback e True cname msg ?s1 =
      Some (?s1\<lparr>trace := trace ?s1 @
        [Log ERROR ''record procedure is not started or stopping.'', ShowProgress]\<rparr>)"
    for e cname msg
    using assms(3) by (auto simp: callback_def ReaderCallback_def emit_def)
  ultimately show ?thesis by (intro exI[of _ ?s1]) simp
qed

text \<open>
  In the concrete session the reader of \<open>/chatter\<close> is in the map before and after
  \<open>Stop\<close>, and a payload delivered after \<open>Stop\<close> ends in a progress report.
\<close>

theorem C3_readers_survive_stop:
  "Stop started_session = Some (True, stopped_session) \<and>
   channel_reader_map started_session ''/chatter'' = Some (Reader ''/chatter'' 50) \<and>
   channel_reader_map stopped_session ''/chatter'' = Some (Reader ''/chatter'' 50) \<and>
   trace stopped_session = trace started_session @ [RemoveChangeListener, WriterClose] \<and>
   callback env_ok True ''/chatter'' (Some ''P'') stopped_session =
     Some (stopped_session\<lparr>trace := trace stopped_session @
       [Log ERROR ''record procedure is not started or stopping.'', ShowProgress]\<rparr>)"
proof -
  have "is_started started_session" "\<not> is_stopping started_session"
    "writer started_session \<noteq> None"
    by (simp_all add: started_session_def)
  from C3_stop_frees_no_reader[OF this]
  obtain s' where s': "Stop started_session = Some (True, s')"
    "channel_reader_map s' = channel_reader_map started_session"
    "trace s' = trace started_session @ [RemoveChangeListener, WriterClose]"
    "\<And>e cname msg. callback e True cname msg s' =
        Some (s'\<lparr>trace := trace s' @
          [Log ERROR ''record procedure is not started or stopping.'', ShowProgress]\<rparr>)"
    by blast
  from s'(1) have eq: "s' = stopped_session" by (simp add: Stop_started_session)
  have "channel_reader_map started_session ''/chatter'' = Some (Reader ''/chatter'' 50)"
    by (simp add: started_session_def)
  with s' eq show ?thesis by simp
qed

subsection \<open>Traces that grow\<close>

lemma extends_by_iff:
  "extends_by P s s' \<longleftrightarrow> (\<exists>evs. trace s' = trace s @ evs \<and> list_all P evs)"
proof
  assume "extends_by P s s'"
  then have "trace s' = trace s @ drop (length (trace s)) (trace s')"
    "list_all P (drop (length (trace s)) (trace s'))"
    unfolding extends_by_def by (metis append_take_drop_id, simp)
  then show "\<exists>evs. trace s' = trace s @ evs \<and> list_all P evs" by blast
next
  assume "\<exists>evs. trace s' = trace s @ evs \<and> list_all P evs"
  then show "extends_by P s s'" by (auto simp: extends_by_def)
qed

lemma extends_by_refl: "extends_by P s s"
  by (simp add: extends_by_def)

lemma extends_by_same_trace: "trace s' = trace s \<Longrightarrow> extends_by P s s'"
  by (simp add: extends_by_def)

lemma extends_by_trans:
  assumes "extends_by P s s1" "extends_by P s1 s2"
  shows "extends_by P s s2"
proof -
  from assms obtain xs ys where "trace s1 = trace s @ xs" "list_all P xs"
    "trace s2 = trace s1 @ ys" "list_all P ys"
    unfolding extends_by_iff by blast
  then have "trace s2 = trace s @ (xs @ ys)" "list_all P (xs @ ys)" by simp_all
  then show ?thesis unfolding extends_by_iff by blast
qed

lemma extends_by_emit: "P ev \<Longrightarrow> extends_by P s (emit ev s)"
  by (simp add: extends_by_def)

lemma extends_by_emit_trans:
  "extends_by P s s1 \<Longrightarrow> P ev \<Longrightarrow> extends_by P s (emit ev s1)"
  by (blast intro: extends_by_trans extends_by_emit)

subsection \<open>What one call of \<open>FindNewChannel\<close> can do\<close>

lemma FindNewChannel_unusable:
  assumes "\<not> usable ra"
  shows "\<exists>line. FindNewChannel e ra s = Some (emit (Log WARN line) s)"
  using assms unfolding usable_iff FindNewChannel_def by auto

lemma FindNewChannel_unselected:
  assumes "usable ra" "\<not> selected s (channel_name ra)"
  shows "FindNewChannel e ra s =
           Some (emit (Log DEBUG ''New channel was found, but not in record list.'') s)"
  using assms unfolding usable_iff FindNewChannel_def selected_def by simp

lemma FindNewChannel_known:
  assumes "usable ra" "selected s (channel_name ra)"
    "channel_reader_map s (channel_name ra) \<noteq> None"
  shows "FindNewChannel e ra s = Some s"
  using assms unfolding usable_iff FindNewChannel_def selected_def by auto

lemma FindNewChannel_fresh:
  assumes "usable ra" "selected s (channel_name ra)"
    "channel_reader_map s (channel_name ra) = None"
  shows "FindNewChannel e ra s =
           (case writer s of
              None \<Rightarrow> None
            | Some w \<Rightarrow> map_option snd
                (InitReaderImpl e (channel_name ra) (message_type ra) (after_WriteChannel e ra s)))"
  using assms unfolding usable_iff FindNewChannel_def selected_def after_WriteChannel_def
  by (auto simp: Let_def split: option.split)

lemma FindNewChannel_cases:
  assumes "FindNewChannel e ra s = Some s'"
  obtains (rejected) sev line where "s' = emit (Log sev line) s"
      "\<not> usable ra \<or> \<not> selected s (channel_name ra)"
    | (known) "s' = s" "usable ra" "selected s (channel_name ra)"
        "channel_reader_map s (channel_name ra) \<noteq> None"
    | (fresh) ok where "usable ra" "selected s (channel_name ra)"
        "channel_reader_map s (channel_name ra) = None" "writer s \<noteq> None"
        "InitReaderImpl e (channel_name ra) (message_type ra) (after_WriteChannel e ra s)
           = Some (ok, s')"
proof (cases "usable ra")
  case False
  from FindNewChannel_unusable[OF False, of e s] obtain line
    where "FindNewChannel e ra s = Some (emit (Log WARN line) s)" ..
  with assms have "s' = emit (Log WARN line) s" by simp
  then show ?thesis using False by (intro rejected) simp_all
next
  case u: True
  show ?thesis
  proof (cases "selected s (channel_name ra)")
    case False
    from FindNewChannel_unselected[OF u False, of e] assms
    have "s' = emit (Log DEBUG ''New channel was found, but not in record list.'') s"
      by simp
    then show ?thesis using False by (intro rejected) simp_all
  next
    case sel: True
    show ?thesis
    proof (cases "channel_reader_map s (channel_name ra) = None")
      case False
      from FindNewChannel_known[OF u sel False, of e] assms have "s' = s" by simp
      then show ?thesis using u sel False by (intro known)
    next
      case True
      have eq: "(case writer s of
              None \<Rightarrow> None
            | Some w \<Rightarrow> map_option snd
                (InitReaderImpl e (channel_name ra) (message_type ra) (after_WriteChannel e ra s)))
            = Some s'"
        unfolding FindNewChannel_fresh[OF u sel True, symmetric] by (rule assms)
      then have w: "writer s \<noteq> None" by (cases "writer s") simp_all
      with eq have "map_option snd (InitReaderImpl e (channel_name ra) (message_type ra)
           (after_WriteChannel e ra s)) = Some s'"
        by (cases "writer s") simp_all
      then obtain r where
        r: "InitReaderImpl e (channel_name ra) (message_type ra) (after_WriteChannel e ra s)
           = Some r" and "snd r = s'"
        by (rule map_option_eq_Some[THEN iffD1, THEN exE]) blast
      then have
        "InitReaderImpl e (channel_name ra) (message_type ra) (after_WriteChannel e ra s)
           = Some (fst r, s')"
        by (cases r) simp
      then show ?thesis using u sel True w by (intro fresh)
    qed
  qed
qed

lemma after_WriteChannel_simps [simp]:
  "channel_reader_map (after_WriteChannel e ra s) = channel_reader_map s"
  "all_channels (after_WriteChannel e ra s) = all_channels s"
  "channel_vec (after_WriteChannel e ra s) = channel_vec s"
  "is_started (after_WriteChannel e ra s) = is_started s"
  "is_stopping (after_WriteChannel e ra s) = is_stopping s"
  "writer (after_WriteChannel e ra s) = writer s"
  "node (after_WriteChannel e ra s) = node s"
  "record_conf (after_WriteChannel e ra s) = record_conf s"
  by (simp_all add: after_WriteChannel_def)

lemma after_WriteChannel_extends:
  assumes "\<And>n t d ok. P (WriteChannel n t d ok)" "\<And>sev line. P (Log sev line)"
  shows "extends_by P s (after_WriteChannel e ra s)"
  unfolding after_WriteChannel_def
  by (simp add: assms extends_by_emit extends_by_emit_trans)

lemma InitReaderImpl_frame:
  assumes "InitReaderImpl e cname mtype s = Some (ok, s')"
  shows "all_channels s' = all_channels s \<and> channel_vec s' = channel_vec s \<and>
         is_started s' = is_started s \<and> is_stopping s' = is_stopping s \<and>
         writer s' = writer s \<and> node s' = node s"
  using assms
  by (auto simp: InitReaderImpl_def Let_def split: if_splits option.splits)

lemma InitReaderImpl_extends:
  assumes "InitReaderImpl e cname mtype s = Some (ok, s')"
    "\<And>n q c. P (CreateReader n q c)" "\<And>sev line. P (Log sev line)"
  shows "extends_by P s s'"
  using assms
  by (auto simp: InitReaderImpl_def Let_def extends_by_def split: if_splits option.splits)

lemma FindNewChannel_frame:
  assumes "FindNewChannel e ra s = Some s'"
  shows "all_channels s' = all_channels s \<and> channel_vec s' = channel_vec s \<and>
         is_started s' = is_started s \<and> is_stopping s' = is_stopping s \<and>
         writer s' = writer s \<and> node s' = node s"
  using assms
proof (cases rule: FindNewChannel_cases)
  case (fresh ok)
  from InitReaderImpl_frame[OF fresh(5)] show ?thesis by simp
qed simp_all

lemma FindNewChannel_extends:
  assumes "FindNewChannel e ra s = Some s'"
    "\<And>n t d ok. P (WriteChannel n t d ok)" "\<And>n q c. P (CreateReader n q c)"
    "\<And>sev line. P (Log sev line)"
  shows "extends_by P s s'"
  using assms(1)
proof (cases rule: FindNewChannel_cases)
  case (rejected sev line)
  then show ?thesis by (simp add: extends_by_emit assms(4))
next
  case known
  then show ?thesis by (simp add: extends_by_refl)
next
  case (fresh ok)
  have "extends_by P s (after_WriteChannel e ra s)"
    by (rule after_WriteChannel_extends) (rule assms)+
  moreover have "extends_by P (after_WriteChannel e ra s) s'"
    using fresh(5) by (rule InitReaderImpl_extends) (rule assms)+
  ultimately show ?thesis by (rule extends_by_trans)
qed

lemma FindNewChannel_loop_extends:
  assumes "FindNewChannel_loop e ras s = Some s'"
    "\<And>n t d ok. P (WriteChannel n t d ok)" "\<And>n q c. P (CreateReader n q c)"
    "\<And>sev line. P (Log sev line)"
  shows "extends_by P s s'"
  using assms(1)
proof (induction ras arbitrary: s)
  case Nil
  then show ?case by (simp add: extends_by_refl)
next
  case (Cons ra ras)
  then obtain s1 where s1: "FindNewChannel e ra s = Some s1"
    "FindNewChannel_loop e ras s1 = Some s'"
    by (auto split: option.splits)
  from s1(1) have "extends_by P s s1"
    by (rule FindNewChannel_extends) (rule assms)+
  moreover from s1(2) have "extends_by P s1 s'" by (rule Cons.IH)
  ultimately show ?case by (rule extends_by_trans)
qed

lemma FindNewChannel_loop_frame:
  assumes "FindNewChannel_loop e ras s = Some s'"
  shows "all_channels s' = all_channels s \<and> channel_vec s' = channel_vec s \<and>
         is_started s' = is_started s \<and> is_stopping s' = is_stopping s \<and>
         writer s' = writer s \<and> node s' = node s"
  using assms
proof (induction ras arbitrary: s)
  case Nil
  then show ?case by simp
next
  case (Cons ra ras)
  then obtain s1 where s1: "FindNewChannel e ra s = Some s1"
    "FindNewChannel_loop e ras s1 = Some s'"
    by (auto split: option.splits)
  from FindNewChannel_frame[OF s1(1)] Cons.IH[OF s1(2)] show ?case by simp
qed

subsection \<open>The order of snapshot and listener\<close>

lemma InitReadersImpl_shape:
  assumes "InitReadersImpl e s = Some (ok, s')"
  shows "\<exists>s1. FindNewChannel_loop e (GetWriters_result e (trace s)) (emit GetWriters s) = Some s1 \<and>
           extends_by (\<lambda>ev. \<not> is_AddChangeListener ev) s s1 \<and>
           trace s' = trace s1 @ AddChangeListener ok #
                        (if ok then [] else [Log ERROR ''change connection is not connected''])"
proof -
  from assms obtain s1 where
    loop: "FindNewChannel_loop e (GetWriters_result e (trace s)) (emit GetWriters s) = Some s1"
    by (auto simp: InitReadersImpl_def Let_def split: option.splits)
  have "extends_by (\<lambda>ev. \<not> is_AddChangeListener ev) s (emit GetWriters s)"
    by (simp add: extends_by_emit)
  moreover have "extends_by (\<lambda>ev. \<not> is_AddChangeListener ev) (emit GetWriters s) s1"
    using loop by (rule FindNewChannel_loop_extends) simp_all
  ultimately have "extends_by (\<lambda>ev. \<not> is_AddChangeListener ev) s s1"
    by (rule extends_by_trans)
  moreover have "trace s' = trace s1 @ AddChangeListener ok #
                        (if ok then [] else [Log ERROR ''change connection is not connected''])"
    using assms loop
    by (auto simp: InitReadersImpl_def Let_def split: if_splits)
  ultimately show ?thesis using loop by blast
qed

lemma Start_success_shape:
  assumes "Start e s = Some (True, s')"
  shows "\<exists>pre. trace s' = trace s @ pre @ [AddChangeListener True] \<and>
           list_all (\<lambda>ev. \<not> is_AddChangeListener ev) pre"
proof -
  let ?s2 = "emit (WriterOpen (output_file s) True) (s\<lparr>writer := Some RecordWriter\<rparr>)"
  let ?name = "''cyber_recorder_record_'' @ to_string (getpid e)"
  let ?s3 = "(emit (CreateNode ?name True) ?s2)\<lparr>node := Some (Node ?name)\<rparr>"
  from assms obtain s4 where init: "InitReadersImpl e ?s3 = Some (True, s4)"
    and s': "s' = s4\<lparr>is_started := True\<rparr>"
    by (auto simp: Start_def Let_def emit_def split: if_splits option.splits)
  from InitReadersImpl_shape[OF init] obtain s1 where
    ext: "extends_by (\<lambda>ev. \<not> is_AddChangeListener ev) ?s3 s1" and
    tr: "trace s4 = trace s1 @ [AddChangeListener True]"
    by auto
  from ext obtain evs where evs: "trace s1 = trace ?s3 @ evs"
    "list_all (\<lambda>ev. \<not> is_AddChangeListener ev) evs"
    unfolding extends_by_iff by blast
  let ?pre = "[WriterOpen (output_file s) True, CreateNode ?name True] @ evs"
  have "trace s' = trace s @ ?pre @ [AddChangeListener True]"
    using s' tr evs(1) by (simp add: emit_def)
  moreover have "list_all (\<lambda>ev. \<not> is_AddChangeListener ev) ?pre"
    using evs(2) by simp
  ultimately show ?thesis by blast
qed


lemma InitReadersImpl_frame:
  assumes "InitReadersImpl e s = Some (ok, s')"
  shows "all_channels s' = all_channels s \<and> channel_vec s' = channel_vec s \<and>
         is_started s' = is_started s \<and> is_stopping s' = is_stopping s \<and>
         writer s' = writer s \<and> node s' = node s"
proof -
  from assms obtain s1 where
    loop: "FindNewChannel_loop e (GetWriters_result e (trace s)) (emit GetWriters s) = Some s1"
    by (auto simp: InitReadersImpl_def Let_def split: option.splits)
  from FindNewChannel_loop_frame[OF loop] assms loop show ?thesis
    by (auto simp: InitReadersImpl_def Let_def split: if_splits)
qed

lemma Start_failure_keeps_is_started:
  assumes "Start e s = Some (False, s')"
  shows "is_started s' = is_started s"
proof -
  let ?s2 = "emit (WriterOpen (output_file s) True) (s\<lparr>writer := Some RecordWriter\<rparr>)"
  let ?name = "''cyber_recorder_record_'' @ to_string (getpid e)"
  let ?s3 = "(emit (CreateNode ?name True) ?s2)\<lparr>node := Some (Node ?name)\<rparr>"
  consider (early) "is_started s' = is_started s"
    | (init) s4 where "InitReadersImpl e ?s3 = Some (False, s4)"
        "s' = emit (Log ERROR '' _init_readers error.'') s4"
    using assms
    by (auto simp: Start_def Let_def emit_def split: if_splits option.splits)
  then show ?thesis
  proof cases
    case early
    then show ?thesis .
  next
    case init
    from InitReadersImpl_frame[OF init(1)] init(2) show ?thesis by simp
  qed
qed

text \<open>
  Claim C7. \<open>InitReadersImpl\<close> first runs \<open>FindNewChannel\<close> over the whole snapshot of
  writers; up to the end of that loop no change listener is registered. The
  registration is the next call after the loop, the value returned is whether the
  connection is connected, and nothing but the error line of a failed registration
  follows. A \<open>Start\<close> that returns true has registered exactly one listener, as its last
  call, and that registration was connected; so when the registration does not give a
  connected handle, \<open>Start\<close> returns false and \<open>is_started_\<close> is not set.
\<close>

theorem C7_listener_after_snapshot:
  "(InitReadersImpl e s = Some (ok, s') \<longrightarrow>
      (\<exists>s1. FindNewChannel_loop e (GetWriters_result e (trace s)) (emit GetWriters s) = Some s1 \<and>
            extends_by (\<lambda>ev. \<not> is_AddChangeListener ev) s s1 \<and>
            trace s' = trace s1 @ AddChangeListener ok #
                         (if ok then [] else [Log ERROR ''change connection is not connected'']))) \<and>
   (Start e s = Some (started, s'') \<and>
      AddChangeListener False \<in> set (drop (length (trace s)) (trace s'')) \<longrightarrow>
      \<not> started \<and> is_started s'' = is_started s)"
proof (intro conjI impI)
  assume "InitReadersImpl e s = Some (ok, s')"
  then show "\<exists>s1. FindNewChannel_loop e (GetWriters_result e (trace s)) (emit GetWriters s) = Some s1 \<and>
            extends_by (\<lambda>ev. \<not> is_AddChangeListener ev) s s1 \<and>
            trace s' = trace s1 @ AddChangeListener ok #
                         (if ok then [] else [Log ERROR ''change connection is not connected''])"
    by (rule InitReadersImpl_shape)
next
  assume a: "Start e s = Some (started, s'') \<and>
      AddChangeListener False \<in> set (drop (length (trace s)) (trace s''))"
  show "\<not> started"
  proof
    assume started
    with a have "Start e s = Some (True, s'')" by simp
    from Start_success_shape[OF this] obtain pre where
      "trace s'' = trace s @ pre @ [AddChangeListener True]"
      "list_all (\<lambda>ev. \<not> is_AddChangeListener ev) pre"
      by blast
    with a show False by (auto simp: list_all_iff)
  qed
  with a have "Start e s = Some (False, s'')" by simp
  then show "is_started s'' = is_started s" by (rule Start_failure_keeps_is_started)
qed

theorem C7_listener_after_snapshot_witness:
  "InitReadersImpl env_ok started_session =
     Some (True, started_session\<lparr>trace := trace started_session @
                                   [GetWriters, AddChangeListener True]\<rparr>) \<and>
   FindNewChannel_loop env_ok [chatter] (emit GetWriters started_session) =
     Some (emit GetWriters started_session) \<and>
   Start env_unconnected idle_session = Some (False, unconnected_session) \<and>
   AddChangeListener False \<in>
     set (drop (length (trace idle_session)) (trace unconnected_session)) \<and>
   is_started unconnected_session = is_started idle_session"
proof -
  have init: "InitReadersImpl env_ok started_session =
     Some (True, started_session\<lparr>trace := trace started_session @
                                   [GetWriters, AddChangeListener True]\<rparr>)"
    by (simp add: InitReadersImpl_def env_ok_def started_session_def FindNewChannel_def
        chatter_def emit_def has_channel_name_def channel_name_def has_message_type_def
        message_type_def has_proto_desc_def proto_desc_def Let_def)
  have start: "Start env_unconnected idle_session = Some (False, unconnected_session)"
    by (simp add: Start_def idle_session_def Recorder_def env_unconnected_def env_ok_def
        InitReadersImpl_def FindNewChannel_def InitReaderImpl_def chatter_def
        unconnected_session_def emit_def has_channel_name_def channel_name_def
        has_message_type_def message_type_def has_proto_desc_def proto_desc_def
        to_string_pid Let_def)
  have mem: "AddChangeListener False \<in>
     set (drop (length (trace idle_session)) (trace unconnected_session))"
    by (simp add: idle_session_def Recorder_def unconnected_session_def)
  from C7_listener_after_snapshot[of env_unconnected idle_session _ _ False
      unconnected_session] start mem
  have st: "is_started unconnected_session = is_started idle_session"
    by blast
  from C7_listener_after_snapshot[of env_ok started_session True
      "started_session\<lparr>trace := trace started_session @ [GetWriters, AddChangeListener True]\<rparr>"]
    init
  obtain s1 where
    s1: "FindNewChannel_loop env_ok (GetWriters_result env_ok (trace started_session))
           (emit GetWriters started_session) = Some s1"
    by blast
  have "FindNewChannel_loop env_ok [chatter] (emit GetWriters started_session) =
     Some (emit GetWriters started_session)"
    by (simp add: env_ok_def started_session_def FindNewChannel_def
        chatter_def emit_def has_channel_name_def channel_name_def has_message_type_def
        message_type_def has_proto_desc_def proto_desc_def Let_def)
  with init start mem st show ?thesis by simp
qed

subsection \<open>The progress report\<close>

lemma ReaderCallback_total:
  assumes "writer s \<noteq> None"
  shows "\<exists>s1. ReaderCallback e msg cname s = Some s1 \<and> writer s1 = writer s \<and>
           extends_by (\<lambda>ev. \<not> is_ShowProgress ev) s s1"
proof (cases "\<not> is_started s \<or> is_stopping s")
  case True
  then have "ReaderCallback e msg cname s =
      Some (emit (Log ERROR ''record procedure is not started or stopping.'') s)"
    by (auto simp: ReaderCallback_def)
  then show ?thesis by (simp add: extends_by_emit)
next
  case live: False
  show ?thesis
  proof (cases msg)
    case None
    with live have "ReaderCallback e msg cname s =
        Some (emit (Log ERROR (''message is nullptr, channel: '' @ cname)) s)"
      by (auto simp: ReaderCallback_def)
    then show ?thesis by (simp add: extends_by_emit)
  next
    case (Some m)
    let ?now = "Time_Now e (trace s)"
    let ?written = "WriteMessage_result e (trace s) cname m ?now"
    let ?s1 = "emit (WriteMessage cname m ?now ?written) s"
    from assms obtain w where w: "writer s = Some w" by blast
    have ext: "extends_by (\<lambda>ev. \<not> is_ShowProgress ev) s ?s1"
      by (simp add: extends_by_emit)
    show ?thesis
    proof (cases ?written)
      case True
      with live Some w have "ReaderCallback e msg cname s = Some ?s1"
        by (simp add: ReaderCallback_def Let_def)
      with ext show ?thesis by simp
    next
      case False
      with live Some w have "ReaderCallback e msg cname s =
          Some (emit (Log ERROR (''write data fail, channel: '' @ cname)) ?s1)"
        by (simp add: ReaderCallback_def Let_def)
      moreover have "extends_by (\<lambda>ev. \<not> is_ShowProgress ev) s
          (emit (Log ERROR (''write data fail, channel: '' @ cname)) ?s1)"
        using ext by (rule extends_by_emit_trans) simp
      ultimately show ?thesis by simp
    qed
  qed
qed

lemma count_ShowProgress_extends:
  assumes "extends_by (\<lambda>ev. \<not> is_ShowProgress ev) s s1"
  shows "length (filter is_ShowProgress (trace s1)) = length (filter is_ShowProgress (trace s))"
proof -
  from assms obtain evs where "trace s1 = trace s @ evs"
    "list_all (\<lambda>ev. \<not> is_ShowProgress ev) evs"
    unfolding extends_by_iff by blast
  then show ?thesis by (simp add: list_all_iff)
qed

text \<open>
  Claim C9 says that the progress report follows a successful append and nothing else.
  The callback reports progress whenever the recorder is alive: in the started session, a
  null payload is dropped after an error line and \<open>ShowProgress\<close> follows, and a
  payload whose append fails is dropped after an error line and \<open>ShowProgress\<close>
  follows.
\<close>

theorem C9_progress_without_append:
  "callback env_ok True ''/chatter'' None started_session =
     Some (started_session\<lparr>trace := trace started_session @
       [Log ERROR ''message is nullptr, channel: /chatter'', ShowProgress]\<rparr>) \<and>
   callback env_no_disk True ''/chatter'' (Some ''P'') started_session =
     Some (started_session\<lparr>trace := trace started_session @
       [WriteMessage ''/chatter'' ''P'' 1000 False,
        Log ERROR ''write data fail, channel: /chatter'', ShowProgress]\<rparr>)"
  by (simp add: callback_def ReaderCallback_def started_session_def emit_def
      env_no_disk_def env_ok_def Let_def)

text \<open>
  Claim C9, amended. When the recorder is gone (\<open>weak_this.lock()\<close> gives nothing) the
  callback does nothing. When it is alive (and has its writer), the callback always
  returns, and it calls \<open>ShowProgress\<close> exactly once, as its last call, after
  \<open>ReaderCallback\<close> has returned, whatever \<open>ReaderCallback\<close> did with the payload:
  appended it, failed to append it, or dropped it at the lifecycle check or the null
  check.
\<close>

theorem C9_progress_after_every_delivery:
  "callback e False cname msg s = Some s \<and>
   (writer s \<noteq> None \<longrightarrow>
      (\<exists>s1. ReaderCallback e msg cname s = Some s1 \<and>
            callback e True cname msg s = Some (emit ShowProgress s1) \<and>
            length (filter is_ShowProgress (trace s1)) =
              length (filter is_ShowProgress (trace s)) \<and>
            length (filter is_ShowProgress (trace (emit ShowProgress s1))) =
              Suc (length (filter is_ShowProgress (trace s)))))"
proof (intro conjI impI)
  show "callback e False cname msg s = Some s" by (simp add: callback_def)
next
  assume w: "writer s \<noteq> None"
  from ReaderCallback_total[OF w, of e msg cname] obtain s1 where
    s1: "ReaderCallback e msg cname s = Some s1" "writer s1 = writer s"
      "extends_by (\<lambda>ev. \<not> is_ShowProgress ev) s s1"
    by blast
  from s1(1,2) w have "callback e True cname msg s = Some (emit ShowProgress s1)"
    by (auto simp: callback_def)
  moreover note count_ShowProgress_extends[OF s1(3)]
  ultimately show "\<exists>s1. ReaderCallback e msg cname s = Some s1 \<and>
            callback e True cname msg s = Some (emit ShowProgress s1) \<and>
            length (filter is_ShowProgress (trace s1)) =
              length (filter is_ShowProgress (trace s)) \<and>
            length (filter is_ShowProgress (trace (emit ShowProgress s1))) =
              Suc (length (filter is_ShowProgress (trace s)))"
    using s1(1) by (intro exI[of _ s1]) simp
qed

theorem C9_progress_after_every_delivery_witness:
  "callback env_ok False ''/chatter'' (Some ''P'') started_session = Some started_session \<and>
   ReaderCallback env_ok (Some ''P'') ''/chatter'' started_session =
     Some (emit (WriteMessage ''/chatter'' ''P'' 1000 True) started_session) \<and>
   callback env_ok True ''/chatter'' (Some ''P'') started_session =
     Some (emit ShowProgress (emit (WriteMessage ''/chatter'' ''P'' 1000 True) started_session))"
proof -
  have w: "writer started_session \<noteq> None" by (simp add: started_session_def)
  have rc: "ReaderCallback env_ok (Some ''P'') ''/chatter'' started_session =
     Some (emit (WriteMessage ''/chatter'' ''P'' 1000 True) started_session)"
    by (simp add: ReaderCallback_def started_session_def env_ok_def emit_def Let_def)
  from C9_progress_after_every_delivery[of env_ok "''/chatter''" "Some ''P''" started_session] w
  obtain s1 where
    "callback env_ok False ''/chatter'' (Some ''P'') started_session = Some started_session"
    "ReaderCallback env_ok (Some ''P'') ''/chatter'' started_session = Some s1"
    "callback env_ok True ''/chatter'' (Some ''P'') started_session = Some (emit ShowProgress s1)"
    by blast
  with rc show ?thesis by simp
qed

subsection \<open>A schema registration that fails\<close>

lemma InitReaderImpl_total:
  assumes "node s \<noteq> None"
  shows "\<exists>ok s'. InitReaderImpl e cname mtype s = Some (ok, s')"
proof -
  from assms obtain nd where "node s = Some nd" by auto
  then show ?thesis
    by (cases "shared_from_this_ok e (trace s)"; cases "CreateReader_result e (trace s) cname")
      (auto simp: InitReaderImpl_def Let_def)
qed

lemma InitReaderImpl_trace:
  assumes "InitReaderImpl e cname mtype s = Some (ok, s')"
  shows "take (length (trace s)) (trace s') = trace s \<and>
         (shared_from_this_ok e (trace s) \<longrightarrow>
            trace s' ! length (trace s) =
              CreateReader cname (record_conf s) (CreateReader_result e (trace s) cname))"
  using assms
  by (cases "shared_from_this_ok e (trace s)"; cases "CreateReader_result e (trace s) cname";
      cases "node s")
    (auto simp: InitReaderImpl_def Let_def nth_append)

lemma FindNewChannel_total:
  assumes "writer s \<noteq> None" "node s \<noteq> None"
  shows "\<exists>s'. FindNewChannel e ra s = Some s'"
proof (cases "usable ra")
  case False
  from FindNewChannel_unusable[OF False, of e s] show ?thesis by blast
next
  case u: True
  show ?thesis
  proof (cases "selected s (channel_name ra)")
    case False
    from FindNewChannel_unselected[OF u False, of e] show ?thesis by blast
  next
    case sel: True
    show ?thesis
    proof (cases "channel_reader_map s (channel_name ra) = None")
      case False
      from FindNewChannel_known[OF u sel False, of e] show ?thesis by blast
    next
      case True
      from assms(1) obtain w where w: "writer s = Some w" by auto
      have "node (after_WriteChannel e ra s) \<noteq> None" using assms(2) by simp
      from InitReaderImpl_total[OF this, of e "channel_name ra" "message_type ra"]
      obtain ok s' where
        "InitReaderImpl e (channel_name ra) (message_type ra) (after_WriteChannel e ra s)
           = Some (ok, s')"
        by blast
      with FindNewChannel_fresh[OF u sel True, of e] w
      have "FindNewChannel e ra s = Some s'" by simp
      then show ?thesis by blast
    qed
  qed
qed

lemma FindNewChannel_loop_total:
  assumes "writer s \<noteq> None" "node s \<noteq> None"
  shows "\<exists>s'. FindNewChannel_loop e ras s = Some s'"
  using assms
proof (induction ras arbitrary: s)
  case Nil
  then show ?case by simp
next
  case (Cons ra ras)
  from FindNewChannel_total[OF Cons.prems, of e ra] obtain s1 where
    s1: "FindNewChannel e ra s = Some s1" by blast
  from FindNewChannel_frame[OF s1] Cons.prems
  have "writer s1 \<noteq> None" "node s1 \<noteq> None" by simp_all
  from Cons.IH[OF this] s1 show ?case by simp
qed

lemma InitReaderImpl_map:
  assumes "InitReaderImpl e cname mtype s = Some (ok, s')" "n \<noteq> cname"
  shows "channel_reader_map s' n = channel_reader_map s n"
  using assms
  by (cases "shared_from_this_ok e (trace s)"; cases "CreateReader_result e (trace s) cname";
      cases "node s")
    (auto simp: InitReaderImpl_def Let_def)

lemma after_WriteChannel_registers:
  "\<exists>evs. trace (after_WriteChannel e ra s) = trace s @ evs \<and>
         list_ex (is_WriteChannel_for (channel_name ra)) evs"
proof (cases "WriteChannel_result e (trace s) (channel_name ra) (message_type ra) (proto_desc ra)")
  case True
  then have "trace (after_WriteChannel e ra s) =
      trace s @ [WriteChannel (channel_name ra) (message_type ra) (proto_desc ra) True]"
    by (simp add: after_WriteChannel_def)
  then show ?thesis by (intro exI[of _ "[WriteChannel (channel_name ra) (message_type ra)
      (proto_desc ra) True]"]) simp
next
  case False
  then have "trace (after_WriteChannel e ra s) =
      trace s @ [WriteChannel (channel_name ra) (message_type ra) (proto_desc ra) False,
                 Log ERROR (''write channel fail, channel:'' @ channel_name ra)]"
    by (simp add: after_WriteChannel_def)
  then show ?thesis by (intro exI[of _ "[WriteChannel (channel_name ra) (message_type ra)
      (proto_desc ra) False, Log ERROR (''write channel fail, channel:'' @ channel_name ra)]"])
      simp
qed

text \<open>
  When a call of \<open>FindNewChannel\<close> is given a usable, selected descriptor whose name
  has no reader, or when it leaves a reader for a name that had none, it has handed
  the schema of that name to the writer.
\<close>

lemma FindNewChannel_registers:
  assumes "FindNewChannel e ra s = Some s1" "channel_reader_map s n = None"
    "(n = channel_name ra \<and> usable ra \<and> selected s n) \<or> channel_reader_map s1 n \<noteq> None"
  shows "\<exists>evs. trace s1 = trace s @ evs \<and> list_ex (is_WriteChannel_for n) evs"
  using assms(1)
proof (cases rule: FindNewChannel_cases)
  case (rejected sev line)
  with assms(2,3) show ?thesis by auto
next
  case known
  with assms(2,3) show ?thesis by auto
next
  case (fresh ok)
  have n: "n = channel_name ra"
  proof (rule ccontr)
    assume ne: "n \<noteq> channel_name ra"
    from InitReaderImpl_map[OF fresh(5) ne] assms(2)
    have "channel_reader_map s1 n = None" by simp
    with assms(3) ne show False by simp
  qed
  from after_WriteChannel_registers[of e ra s] obtain xs where
    xs: "trace (after_WriteChannel e ra s) = trace s @ xs"
      "list_ex (is_WriteChannel_for (channel_name ra)) xs"
    by blast
  have "extends_by (\<lambda>ev. True) (after_WriteChannel e ra s) s1"
    using fresh(5) by (rule InitReaderImpl_extends) simp_all
  then obtain ys where ys: "trace s1 = trace (after_WriteChannel e ra s) @ ys"
    unfolding extends_by_iff by blast
  from xs ys n have "trace s1 = trace s @ (xs @ ys)"
    "list_ex (is_WriteChannel_for n) (xs @ ys)"
    by simp_all
  then show ?thesis by blast
qed

lemma FindNewChannel_loop_registers:
  assumes "FindNewChannel_loop e ras s = Some s'" "rb \<in> set ras" "usable rb"
    "selected s (channel_name rb)" "channel_reader_map s (channel_name rb) = None"
  shows "\<exists>evs. trace s' = trace s @ evs \<and> list_ex (is_WriteChannel_for (channel_name rb)) evs"
  using assms
proof (induction ras arbitrary: s)
  case Nil
  then show ?case by simp
next
  case (Cons ra ras)
  from Cons.prems(1) obtain s1 where s1: "FindNewChannel e ra s = Some s1"
    "FindNewChannel_loop e ras s1 = Some s'"
    by (auto split: option.splits)
  have "extends_by (\<lambda>ev. True) s1 s'"
    using s1(2) by (rule FindNewChannel_loop_extends) simp_all
  then obtain zs where zs: "trace s' = trace s1 @ zs"
    unfolding extends_by_iff by blast
  have "extends_by (\<lambda>ev. True) s s1"
    using s1(1) by (rule FindNewChannel_extends) simp_all
  then obtain xs where xs: "trace s1 = trace s @ xs"
    unfolding extends_by_iff by blast
  show ?case
  proof (cases "(channel_name rb = channel_name ra \<and> usable ra) \<or>
                channel_reader_map s1 (channel_name rb) \<noteq> None")
    case True
    with Cons.prems(4)
    have "(channel_name rb = channel_name ra \<and> usable ra \<and> selected s (channel_name rb)) \<or>
          channel_reader_map s1 (channel_name rb) \<noteq> None"
      by blast
    from FindNewChannel_registers[OF s1(1) Cons.prems(5) this] obtain evs where
      "trace s1 = trace s @ evs" "list_ex (is_WriteChannel_for (channel_name rb)) evs"
      by blast
    with zs have "trace s' = trace s @ (evs @ zs)"
      "list_ex (is_WriteChannel_for (channel_name rb)) (evs @ zs)"
      by simp_all
    then show ?thesis by blast
  next
    case False
    then have none: "channel_reader_map s1 (channel_name rb) = None"
      and other: "rb \<noteq> ra"
      using Cons.prems(3) by auto
    with Cons.prems(2) have mem: "rb \<in> set ras" by simp
    from FindNewChannel_frame[OF s1(1)] Cons.prems(4)
    have sel: "selected s1 (channel_name rb)" by (simp add: selected_def)
    from Cons.IH[OF s1(2) mem Cons.prems(3) sel none] obtain evs where
      "trace s' = trace s1 @ evs" "list_ex (is_WriteChannel_for (channel_name rb)) evs"
      by blast
    with xs have "trace s' = trace s @ (xs @ evs)"
      "list_ex (is_WriteChannel_for (channel_name rb)) (xs @ evs)"
      by simp_all
    then show ?thesis by blast
  qed
qed

text \<open>
  Claim C8. For a usable descriptor that passes the selection policy and whose name has
  no reader yet, a \<open>WriteChannel\<close> that answers false is followed by an error line and
  then by the call of \<open>InitReaderImpl\<close> all the same: \<open>FindNewChannel\<close> returns the
  state \<open>InitReaderImpl\<close> leaves, whose trace continues with the request for the reader
  when the recorder is owned by a shared pointer. The loop over the snapshot is not cut
  short: whatever descriptors remain, it runs to its end and yields a state, the one
  the loop over the remaining descriptors yields from the state after the failure; and
  every remaining descriptor that is usable, selected and still without a reader after
  the failure has its schema handed to the writer in that remainder of the loop. (The
  writer and the node exist.)
\<close>

theorem C8_failed_registration_goes_on:
  assumes "usable ra" "selected s (channel_name ra)"
    "channel_reader_map s (channel_name ra) = None"
    "writer s \<noteq> None" "node s \<noteq> None"
    "\<not> WriteChannel_result e (trace s) (channel_name ra) (message_type ra) (proto_desc ra)"
  shows "\<exists>ok s'.
     InitReaderImpl e (channel_name ra) (message_type ra)
       (emit (Log ERROR (''write channel fail, channel:'' @ channel_name ra))
          (emit (WriteChannel (channel_name ra) (message_type ra) (proto_desc ra) False) s))
       = Some (ok, s') \<and>
     FindNewChannel e ra s = Some s' \<and>
     take (length (trace s) + 2) (trace s') =
       trace s @ [WriteChannel (channel_name ra) (message_type ra) (proto_desc ra) False,
                  Log ERROR (''write channel fail, channel:'' @ channel_name ra)] \<and>
     (shared_from_this_ok e (trace (after_WriteChannel e ra s)) \<longrightarrow>
        trace s' ! (length (trace s) + 2) =
          CreateReader (channel_name ra) (record_conf s)
            (CreateReader_result e (trace (after_WriteChannel e ra s)) (channel_name ra))) \<and>
     (\<forall>ras. FindNewChannel_loop e (ra # ras) s = FindNewChannel_loop e ras s' \<and>
        (\<exists>s''. FindNewChannel_loop e (ra # ras) s = Some s'' \<and>
           FindNewChannel_loop e ras s' = Some s'' \<and>
           take (length (trace s')) (trace s'') = trace s' \<and>
           (\<forall>rb \<in> set ras.
              usable rb \<and> selected s (channel_name rb) \<and>
              channel_reader_map s' (channel_name rb) = None \<longrightarrow>
              list_ex (is_WriteChannel_for (channel_name rb))
                (drop (length (trace s')) (trace s'')))))"
proof -
  let ?s2 = "emit (Log ERROR (''write channel fail, channel:'' @ channel_name ra))
          (emit (WriteChannel (channel_name ra) (message_type ra) (proto_desc ra) False) s)"
  have aw: "after_WriteChannel e ra s = ?s2"
    using assms(6) by (simp add: after_WriteChannel_def)
  from assms(4) obtain w where w: "writer s = Some w" by auto
  have "node ?s2 \<noteq> None" using assms(5) by simp
  from InitReaderImpl_total[OF this] obtain ok s' where init:
    "InitReaderImpl e (channel_name ra) (message_type ra) ?s2 = Some (ok, s')"
    by blast
  have fnc: "FindNewChannel e ra s = Some s'"
    using FindNewChannel_fresh[OF assms(1-3), of e] w init aw by simp
  have len: "length (trace ?s2) = length (trace s) + 2" by simp
  have tr2: "trace ?s2 =
       trace s @ [WriteChannel (channel_name ra) (message_type ra) (proto_desc ra) False,
                  Log ERROR (''write channel fail, channel:'' @ channel_name ra)]"
    by simp
  have rc: "record_conf ?s2 = record_conf s" by simp
  note shape = InitReaderImpl_trace[OF init, unfolded len rc]
  have pre: "take (length (trace s) + 2) (trace s') =
       trace s @ [WriteChannel (channel_name ra) (message_type ra) (proto_desc ra) False,
                  Log ERROR (''write channel fail, channel:'' @ channel_name ra)]"
    using shape tr2 by simp
  have third: "shared_from_this_ok e (trace ?s2) \<longrightarrow>
        trace s' ! (length (trace s) + 2) =
          CreateReader (channel_name ra) (record_conf s)
            (CreateReader_result e (trace ?s2) (channel_name ra))"
    using shape by blast
  from FindNewChannel_frame[OF fnc] assms(4,5)
  have alive: "writer s' \<noteq> None" "node s' \<noteq> None"
    and same: "all_channels s' = all_channels s" "channel_vec s' = channel_vec s"
    by simp_all
  have rest: "FindNewChannel_loop e (ra # ras) s = FindNewChannel_loop e ras s' \<and>
        (\<exists>s''. FindNewChannel_loop e (ra # ras) s = Some s'' \<and>
           FindNewChannel_loop e ras s' = Some s'' \<and>
           take (length (trace s')) (trace s'') = trace s' \<and>
           (\<forall>rb \<in> set ras.
              usable rb \<and> selected s (channel_name rb) \<and>
              channel_reader_map s' (channel_name rb) = None \<longrightarrow>
              list_ex (is_WriteChannel_for (channel_name rb))
                (drop (length (trace s')) (trace s''))))" for ras
  proof -
    have step: "FindNewChannel_loop e (ra # ras) s = FindNewChannel_loop e ras s'"
      using fnc by simp
    from FindNewChannel_loop_total[OF alive, of e ras] obtain s'' where
      s'': "FindNewChannel_loop e ras s' = Some s''" by blast
    have "extends_by (\<lambda>ev. True) s' s''"
      using s'' by (rule FindNewChannel_loop_extends) simp_all
    then have prefix: "take (length (trace s')) (trace s'') = trace s'"
      by (simp add: extends_by_def)
    have "list_ex (is_WriteChannel_for (channel_name rb))
            (drop (length (trace s')) (trace s''))"
      if rb: "rb \<in> set ras" "usable rb" "selected s (channel_name rb)"
        "channel_reader_map s' (channel_name rb) = None" for rb
    proof -
      from rb(3) same have "selected s' (channel_name rb)" by (simp add: selected_def)
      from FindNewChannel_loop_registers[OF s'' rb(1,2) this rb(4)] obtain evs where
        "trace s'' = trace s' @ evs" "list_ex (is_WriteChannel_for (channel_name rb)) evs"
        by blast
      then show ?thesis by simp
    qed
    with step s'' prefix show ?thesis by auto
  qed
  from init fnc pre third aw rest show ?thesis by auto
qed

lemma FindNewChannel_pose:
  "FindNewChannel env_no_disk pose started_session = Some after_pose_session"
  by (simp add: FindNewChannel_def InitReaderImpl_def pose_def started_session_def
      after_pose_session_def env_no_disk_def env_ok_def emit_def has_channel_name_def
      channel_name_def has_message_type_def message_type_def has_proto_desc_def
      proto_desc_def Let_def)

lemma FindNewChannel_a_after_pose:
  "FindNewChannel env_no_disk descriptor_a after_pose_session = Some after_pose_a_session"
  by (simp add: FindNewChannel_def InitReaderImpl_def descriptor_a_def started_session_def
      after_pose_session_def after_pose_a_session_def env_no_disk_def env_ok_def emit_def
      has_channel_name_def channel_name_def has_message_type_def message_type_def
      has_proto_desc_def proto_desc_def Let_def)

theorem C8_failed_registration_goes_on_witness:
  "FindNewChannel env_no_disk pose started_session = Some after_pose_session \<and>
   FindNewChannel_loop env_no_disk [pose, descriptor_a] started_session =
     Some after_pose_a_session \<and>
   FindNewChannel_loop env_no_disk [descriptor_a] after_pose_session =
     Some after_pose_a_session \<and>
   list_ex (is_WriteChannel_for ''a'')
     (drop (length (trace after_pose_session)) (trace after_pose_a_session)) \<and>
   channel_reader_map after_pose_a_session ''a'' = Some (Reader ''a'' 50)"
proof -
  have h: "usable pose" "selected started_session (channel_name pose)"
    "channel_reader_map started_session (channel_name pose) = None"
    "writer started_session \<noteq> None" "node started_session \<noteq> None"
    "\<not> WriteChannel_result env_no_disk (trace started_session)
         (channel_name pose) (message_type pose) (proto_desc pose)"
    by (simp_all add: usable_def pose_def selected_def started_session_def
        env_no_disk_def env_ok_def channel_name_def message_type_def proto_desc_def)
  from C8_failed_registration_goes_on[OF h]
  obtain s' s'' where s': "FindNewChannel env_no_disk pose started_session = Some s'"
    and s'': "FindNewChannel_loop env_no_disk [pose, descriptor_a] started_session = Some s''"
      "FindNewChannel_loop env_no_disk [descriptor_a] s' = Some s''"
    and reg: "\<forall>rb \<in> set [descriptor_a].
              usable rb \<and> selected started_session (channel_name rb) \<and>
              channel_reader_map s' (channel_name rb) = None \<longrightarrow>
              list_ex (is_WriteChannel_for (channel_name rb))
                (drop (length (trace s')) (trace s''))"
    by blast
  from s' have e1: "s' = after_pose_session" by (simp add: FindNewChannel_pose)
  with s''(2) have e2: "s'' = after_pose_a_session"
    by (simp add: FindNewChannel_a_after_pose)
  have a: "channel_name descriptor_a = ''a''" "usable descriptor_a"
    "selected started_session ''a''"
    "channel_reader_map after_pose_session ''a'' = None"
    by (simp_all add: descriptor_a_def channel_name_def usable_def selected_def
        started_session_def after_pose_session_def)
  from reg e1 e2 a
  have "list_ex (is_WriteChannel_for ''a'')
     (drop (length (trace after_pose_session)) (trace after_pose_a_session))"
    by simp
  moreover have "channel_reader_map after_pose_a_session ''a'' = Some (Reader ''a'' 50)"
    by (simp add: after_pose_a_session_def)
  ultimately show ?thesis using s' s'' e1 e2 by simp
qed

subsection \<open>Invariants of a session lifetime\<close>

lemma not_subscription:
  "\<not> is_subscription ev \<Longrightarrow> \<not> subscribes_to n ev \<and> \<not> reader_created n ev"
  by (cases ev) simp_all

lemma readers_created_quiet:
  "list_all (\<lambda>ev. \<not> is_subscription ev) evs \<Longrightarrow> readers_created n evs = 0"
  by (induction evs) (simp_all add: not_subscription)

lemma subscribes_to_quiet:
  "list_all (\<lambda>ev. \<not> is_subscription ev) evs \<Longrightarrow> list_all (\<lambda>ev. \<not> subscribes_to n ev) evs"
  by (induction evs) (simp_all add: not_subscription)

lemma keeps_refl: "keeps s s"
  by (simp add: keeps_def)

lemma keeps_trans:
  assumes "keeps s s1" "keeps s1 s2"
  shows "keeps s s2"
proof -
  from assms(1) have "selected s1 n = selected s n" for n
    by (simp add: keeps_def selected_def)
  with assms show ?thesis unfolding keeps_def by metis
qed

lemma keeps_quiet:
  assumes "channel_reader_map s' = channel_reader_map s"
    "all_channels s' = all_channels s" "channel_vec s' = channel_vec s"
    "extends_by (\<lambda>ev. \<not> is_subscription ev) s s'"
  shows "keeps s s'"
proof -
  from assms(4) obtain evs where evs: "trace s' = trace s @ evs"
    "list_all (\<lambda>ev. \<not> is_subscription ev) evs"
    unfolding extends_by_iff by blast
  have "created_once s' n" if "created_once s n" for n
    using that evs assms(1) by (simp add: created_once_def readers_created_quiet)
  moreover have "never_subscribed s' n" if "never_subscribed s n" for n
    using that evs assms(1) by (simp add: never_subscribed_def subscribes_to_quiet)
  ultimately show ?thesis using assms(2,3) by (simp add: keeps_def)
qed

lemma keeps_emit: "\<not> is_subscription ev \<Longrightarrow> keeps s (emit ev s)"
  by (rule keeps_quiet) (simp_all add: extends_by_emit)

lemma created_once_emit:
  "created_once s n \<Longrightarrow> \<not> reader_created n ev \<Longrightarrow> created_once (emit ev s) n"
  by (simp add: created_once_def)

lemma never_subscribed_emit:
  "never_subscribed s n \<Longrightarrow> \<not> subscribes_to n ev \<Longrightarrow> never_subscribed (emit ev s) n"
  by (simp add: never_subscribed_def)

lemma after_WriteChannel_created_once:
  "created_once s n \<Longrightarrow> created_once (after_WriteChannel e ra s) n"
  by (simp add: after_WriteChannel_def created_once_emit)

lemma after_WriteChannel_never_subscribed:
  "never_subscribed s n \<Longrightarrow> n \<noteq> channel_name ra \<Longrightarrow>
   never_subscribed (after_WriteChannel e ra s) n"
  by (simp add: after_WriteChannel_def never_subscribed_emit)

lemma InitReaderImpl_created_once:
  assumes "InitReaderImpl e cname mtype s = Some (ok, s')" "created_once s n"
    "channel_reader_map s cname = None"
  shows "created_once s' n"
  using assms
  by (auto simp: InitReaderImpl_def created_once_def Let_def split: if_splits option.splits)

lemma InitReaderImpl_never_subscribed:
  assumes "InitReaderImpl e cname mtype s = Some (ok, s')" "never_subscribed s n" "n \<noteq> cname"
  shows "never_subscribed s' n"
  using assms
  by (auto simp: InitReaderImpl_def never_subscribed_def Let_def split: if_splits option.splits)

lemma FindNewChannel_created_once:
  assumes "FindNewChannel e ra s = Some s'" "created_once s n"
  shows "created_once s' n"
  using assms(1)
proof (cases rule: FindNewChannel_cases)
  case (rejected sev line)
  with assms(2) show ?thesis by (simp add: created_once_emit)
next
  case known
  with assms(2) show ?thesis by simp
next
  case (fresh ok)
  have "created_once (after_WriteChannel e ra s) n"
    "channel_reader_map (after_WriteChannel e ra s) (channel_name ra) = None"
    using fresh(3) assms(2) by (auto simp: after_WriteChannel_created_once)
  with fresh(5) show ?thesis by (blast intro: InitReaderImpl_created_once)
qed

lemma FindNewChannel_never_subscribed:
  assumes "FindNewChannel e ra s = Some s'" "never_subscribed s n" "\<not> selected s n"
  shows "never_subscribed s' n"
  using assms(1)
proof (cases rule: FindNewChannel_cases)
  case (rejected sev line)
  with assms(2) show ?thesis by (simp add: never_subscribed_emit)
next
  case known
  with assms(2) show ?thesis by simp
next
  case (fresh ok)
  from fresh(2) assms(3) have ne: "n \<noteq> channel_name ra" by auto
  with assms(2) have "never_subscribed (after_WriteChannel e ra s) n"
    by (simp add: after_WriteChannel_never_subscribed)
  with fresh(5) ne show ?thesis by (blast intro: InitReaderImpl_never_subscribed)
qed

lemma FindNewChannel_keeps:
  assumes "FindNewChannel e ra s = Some s'"
  shows "keeps s s'"
  using FindNewChannel_frame[OF assms] FindNewChannel_created_once[OF assms]
    FindNewChannel_never_subscribed[OF assms]
  by (simp add: keeps_def)

lemma FindNewChannel_loop_keeps:
  assumes "FindNewChannel_loop e ras s = Some s'"
  shows "keeps s s'"
  using assms
proof (induction ras arbitrary: s)
  case Nil
  then show ?case by (simp add: keeps_refl)
next
  case (Cons ra ras)
  then obtain s1 where s1: "FindNewChannel e ra s = Some s1"
    "FindNewChannel_loop e ras s1 = Some s'"
    by (auto split: option.splits)
  from FindNewChannel_keeps[OF s1(1)] Cons.IH[OF s1(2)] show ?case by (rule keeps_trans)
qed

lemma TopologyCallback_keeps:
  assumes "TopologyCallback e m s = Some s'"
  shows "keeps s s'"
proof -
  let ?s1 = "emit (Log DEBUG ''ChangeMsg in Topology Callback:'') s"
  have k1: "keeps s ?s1" by (simp add: keeps_emit)
  show ?thesis
  proof (cases "role_type m = ROLE_WRITER")
    case True
    with assms have "FindNewChannel e (role_attr m) ?s1 = Some s'"
      by (simp add: TopologyCallback_def Let_def)
    from k1 FindNewChannel_keeps[OF this] show ?thesis by (rule keeps_trans)
  next
    case False
    with assms have "s' = emit (Log DEBUG ''Change message role type is not ROLE_WRITER.'') ?s1"
      by (simp add: TopologyCallback_def Let_def)
    then have "keeps ?s1 s'" by (simp add: keeps_emit)
    with k1 show ?thesis by (rule keeps_trans)
  qed
qed

lemma InitReadersImpl_keeps:
  assumes "InitReadersImpl e s = Some (ok, s')"
  shows "keeps s s'"
proof -
  from assms obtain s1 where
    loop: "FindNewChannel_loop e (GetWriters_result e (trace s)) (emit GetWriters s) = Some s1"
    by (auto simp: InitReadersImpl_def Let_def split: option.splits)
  have "keeps s (emit GetWriters s)" by (simp add: keeps_emit)
  moreover note FindNewChannel_loop_keeps[OF loop]
  moreover have "keeps s1 s'"
    using assms loop
    by (intro keeps_quiet)
      (auto simp: InitReadersImpl_def Let_def extends_by_def split: if_splits)
  ultimately show ?thesis by (blast intro: keeps_trans)
qed

lemma Start_keeps:
  assumes "Start e s = Some (r, s')"
  shows "keeps s s'"
proof -
  let ?s2 = "emit (WriterOpen (output_file s) True) (s\<lparr>writer := Some RecordWriter\<rparr>)"
  let ?name = "''cyber_recorder_record_'' @ to_string (getpid e)"
  let ?s3 = "(emit (CreateNode ?name True) ?s2)\<lparr>node := Some (Node ?name)\<rparr>"
  have k3: "keeps s ?s3"
    by (intro keeps_quiet) (simp_all add: extends_by_def emit_def)
  consider (early) "channel_reader_map s' = channel_reader_map s"
      "all_channels s' = all_channels s" "channel_vec s' = channel_vec s"
      "extends_by (\<lambda>ev. \<not> is_subscription ev) s s'"
    | (init) ok s4 where "InitReadersImpl e ?s3 = Some (ok, s4)"
        "s' = emit (Log ERROR '' _init_readers error.'') s4 \<or> s' = s4\<lparr>is_started := True\<rparr>"
    using assms
    by (auto simp: Start_def Let_def emit_def extends_by_def split: if_splits option.splits)
  then show ?thesis
  proof cases
    case early
    then show ?thesis by (rule keeps_quiet)
  next
    case init
    from init(2) have "keeps s4 s'"
      by (intro keeps_quiet) (auto simp: extends_by_def)
    with k3 InitReadersImpl_keeps[OF init(1)] show ?thesis by (blast intro: keeps_trans)
  qed
qed

lemma Stop_keeps:
  assumes "Stop s = Some (r, s')"
  shows "keeps s s'"
  using assms
  by (intro keeps_quiet)
    (auto simp: Stop_def FreeReadersImpl_def emit_def extends_by_def Let_def
      split: if_splits option.splits)

lemma ReaderCallback_keeps:
  assumes "ReaderCallback e msg cname s = Some s'"
  shows "keeps s s'"
  using assms
  by (intro keeps_quiet)
    (auto simp: ReaderCallback_def emit_def extends_by_def Let_def
      split: if_splits option.splits)

lemma callback_keeps:
  assumes "callback e locked cname msg s = Some s'"
  shows "keeps s s'"
proof (cases locked)
  case False
  with assms show ?thesis by (simp add: callback_def keeps_refl)
next
  case True
  with assms obtain s1 where s1: "ReaderCallback e msg cname s = Some s1"
    "s' = emit ShowProgress s1"
    by (auto simp: callback_def split: option.splits)
  from s1(2) have "keeps s1 s'" by (simp add: keeps_emit)
  with ReaderCallback_keeps[OF s1(1)] show ?thesis by (rule keeps_trans)
qed

lemma step_keeps:
  assumes "step e x s = Some s'"
  shows "keeps s s'"
proof (cases x)
  case OpStart
  with assms obtain r where "Start e s = Some (r, s')" by (auto)
  then show ?thesis by (rule Start_keeps)
next
  case OpStop
  with assms obtain r where "Stop s = Some (r, s')" by (auto)
  then show ?thesis by (rule Stop_keeps)
next
  case (OpTopologyCallback m)
  with assms show ?thesis by (simp add: TopologyCallback_keeps)
next
  case (OpCallback cname msg)
  with assms show ?thesis by (simp add: callback_keeps)
qed

lemma run_keeps:
  assumes "run e ops s = Some s'"
  shows "keeps s s'"
  using assms
proof (induction ops arbitrary: s)
  case Nil
  then show ?case by (simp add: keeps_refl)
next
  case (Cons x xs)
  then obtain s1 where s1: "step e x s = Some s1" "run e xs s1 = Some s'"
    by (auto split: option.splits)
  from step_keeps[OF s1(1)] Cons.IH[OF s1(2)] show ?case by (rule keeps_trans)
qed

lemma Recorder_created_once: "created_once (Recorder e out allc vec) n"
  by (simp add: created_once_def Recorder_def)

lemma Recorder_never_subscribed: "never_subscribed (Recorder e out allc vec) n"
  by (simp add: never_subscribed_def Recorder_def)

subsection \<open>One reader for a channel name\<close>

lemma InitReaderImpl_readers_created:
  assumes "InitReaderImpl e cname mtype s = Some (ok, s')"
  shows "readers_created n (trace s') =
           readers_created n (trace s) + (if ok \<and> n = cname then 1 else 0)"
  using assms
  by (cases "shared_from_this_ok e (trace s)"; cases "CreateReader_result e (trace s) cname";
      cases "node s")
    (auto simp: InitReaderImpl_def Let_def)

lemma after_WriteChannel_readers_created:
  "readers_created n (trace (after_WriteChannel e ra s)) = readers_created n (trace s)"
  by (simp add: after_WriteChannel_def)

lemma FindNewChannel_known_name:
  assumes "channel_reader_map s (channel_name ra) \<noteq> None"
  shows "\<exists>s'. FindNewChannel e ra s = Some s' \<and>
           channel_reader_map s' = channel_reader_map s \<and>
           extends_by (\<lambda>ev. \<not> is_subscription ev) s s' \<and>
           (usable ra \<and> selected s (channel_name ra) \<longrightarrow> s' = s)"
proof (cases "usable ra")
  case False
  from FindNewChannel_unusable[OF False, of e s] obtain line
    where "FindNewChannel e ra s = Some (emit (Log WARN line) s)" ..
  with False show ?thesis by (simp add: extends_by_emit)
next
  case u: True
  show ?thesis
  proof (cases "selected s (channel_name ra)")
    case False
    from FindNewChannel_unselected[OF u False, of e] False show ?thesis
      by (simp add: extends_by_emit)
  next
    case True
    from FindNewChannel_known[OF u True assms, of e] show ?thesis
      by (simp add: extends_by_refl)
  qed
qed

lemma FindNewChannel_new_reader:
  assumes "FindNewChannel e ra s = Some s'"
    "readers_created n (trace s) < readers_created n (trace s')"
  shows "n = channel_name ra \<and> channel_reader_map s n = None"
  using assms(1)
proof (cases rule: FindNewChannel_cases)
  case (rejected sev line)
  with assms(2) show ?thesis by simp
next
  case known
  with assms(2) show ?thesis by simp
next
  case (fresh ok)
  from InitReaderImpl_readers_created[OF fresh(5), of n] assms(2)
  have "n = channel_name ra"
    by (simp add: after_WriteChannel_readers_created split: if_splits)
  with fresh(3) show ?thesis by simp
qed

text \<open>
  Claim C2. In any lifetime of a session (any sequence of \<open>Start\<close>, \<open>Stop\<close>, topology
  notifications and deliveries on a newly constructed recorder, as long as the source
  does not dereference a null pointer), at most one reader is ever created for a channel
  name, and one was created exactly when the map has an entry for the name.
  \<open>FindNewChannel\<close> on a name that has an entry returns with the map unchanged and
  without a call of \<open>WriteChannel\<close> or \<open>CreateReader\<close>, and for a usable, selected
  descriptor it changes nothing at all. A call of \<open>FindNewChannel\<close> that does create a
  reader creates it for the name of its descriptor, and the map had no entry for it.
\<close>

theorem C2_at_most_one_reader:
  "(run e ops (Recorder e out allc vec) = Some s \<longrightarrow>
      readers_created n (trace s) \<le> 1 \<and>
      (readers_created n (trace s) = 1 \<longleftrightarrow> channel_reader_map s n \<noteq> None)) \<and>
   (channel_reader_map s0 (channel_name ra) \<noteq> None \<longrightarrow>
      (\<exists>s'. FindNewChannel e ra s0 = Some s' \<and>
            channel_reader_map s' = channel_reader_map s0 \<and>
            extends_by (\<lambda>ev. \<not> is_subscription ev) s0 s' \<and>
            (usable ra \<and> selected s0 (channel_name ra) \<longrightarrow> s' = s0))) \<and>
   (FindNewChannel e ra s0 = Some s1 \<and>
      readers_created n (trace s0) < readers_created n (trace s1) \<longrightarrow>
      n = channel_name ra \<and> channel_reader_map s0 n = None)"
proof (intro conjI impI)
  assume r: "run e ops (Recorder e out allc vec) = Some s"
  from run_keeps[OF r] Recorder_created_once[of e out allc vec n]
  have c: "created_once s n" by (simp add: keeps_def)
  then show "readers_created n (trace s) \<le> 1"
    by (simp add: created_once_def split: if_splits)
  from c show "readers_created n (trace s) = 1 \<longleftrightarrow> channel_reader_map s n \<noteq> None"
    by (simp add: created_once_def split: if_splits)
next
  assume "channel_reader_map s0 (channel_name ra) \<noteq> None"
  then show "\<exists>s'. FindNewChannel e ra s0 = Some s' \<and>
            channel_reader_map s' = channel_reader_map s0 \<and>
            extends_by (\<lambda>ev. \<not> is_subscription ev) s0 s' \<and>
            (usable ra \<and> selected s0 (channel_name ra) \<longrightarrow> s' = s0)"
    by (rule FindNewChannel_known_name)
next
  assume a: "FindNewChannel e ra s0 = Some s1 \<and>
      readers_created n (trace s0) < readers_created n (trace s1)"
  with FindNewChannel_new_reader[of e ra s0 s1 n]
  have "n = channel_name ra \<and> channel_reader_map s0 n = None"
    by blast
  then show "n = channel_name ra" "channel_reader_map s0 n = None" by blast+
qed

lemma run_duplicate_notification:
  "run env_ok [OpStart, OpTopologyCallback (writer_of chatter)] idle_session =
     Some (emit (Log DEBUG ''ChangeMsg in Topology Callback:'') started_session)"
  by (simp add: Start_idle_session TopologyCallback_def FindNewChannel_def
      started_session_def chatter_def writer_of_def emit_def
      has_channel_name_def channel_name_def has_message_type_def message_type_def
      has_proto_desc_def proto_desc_def Let_def)

theorem C2_at_most_one_reader_witness:
  "run env_ok [OpStart, OpTopologyCallback (writer_of chatter)] idle_session =
     Some (emit (Log DEBUG ''ChangeMsg in Topology Callback:'') started_session) \<and>
   readers_created ''/chatter''
     (trace (emit (Log DEBUG ''ChangeMsg in Topology Callback:'') started_session)) = 1 \<and>
   FindNewChannel env_ok chatter started_session = Some started_session"
proof -
  let ?s = "emit (Log DEBUG ''ChangeMsg in Topology Callback:'') started_session"
  have r: "run env_ok [OpStart, OpTopologyCallback (writer_of chatter)]
             (Recorder env_ok ''out.record'' True []) = Some ?s"
    using run_duplicate_notification by (simp add: idle_session_def)
  have m: "channel_reader_map started_session (channel_name chatter) \<noteq> None"
    "usable chatter" "selected started_session (channel_name chatter)"
    by (simp_all add: started_session_def chatter_def channel_name_def usable_def selected_def)
  have e: "channel_reader_map ?s ''/chatter'' \<noteq> None"
    by (simp add: started_session_def)
  note inst = C2_at_most_one_reader[of env_ok
      "[OpStart, OpTopologyCallback (writer_of chatter)]"
      "''out.record''" True "[]" ?s "''/chatter''" started_session chatter]
  from inst r e have "readers_created ''/chatter'' (trace ?s) = 1" by blast
  moreover from inst m have "FindNewChannel env_ok chatter started_session = Some started_session"
    by blast
  ultimately show ?thesis using run_duplicate_notification by simp
qed

subsection \<open>The selection policy\<close>

lemma emit_channel_vec:
  "emit ev (s\<lparr>channel_vec := v\<rparr>) = (emit ev s)\<lparr>channel_vec := v\<rparr>"
  by (simp add: emit_def)

lemma InitReaderImpl_channel_vec:
  "InitReaderImpl e cname mtype (s\<lparr>channel_vec := v\<rparr>) =
     map_option (\<lambda>r. (fst r, (snd r)\<lparr>channel_vec := v\<rparr>)) (InitReaderImpl e cname mtype s)"
  by (cases "shared_from_this_ok e (trace s)"; cases "CreateReader_result e (trace s) cname";
      cases "node s")
    (simp_all add: InitReaderImpl_def Let_def emit_def)

lemma after_WriteChannel_channel_vec:
  "after_WriteChannel e ra (s\<lparr>channel_vec := v\<rparr>) = (after_WriteChannel e ra s)\<lparr>channel_vec := v\<rparr>"
  by (simp add: after_WriteChannel_def emit_def)

lemma FindNewChannel_all_channels:
  assumes "all_channels s" "usable ra"
  shows "FindNewChannel e ra s =
           (if channel_reader_map s (channel_name ra) = None then
              (case writer s of
                 None \<Rightarrow> None
               | Some w \<Rightarrow> map_option snd
                   (InitReaderImpl e (channel_name ra) (message_type ra)
                      (after_WriteChannel e ra s)))
            else Some s)"
proof -
  from assms(1) have sel: "selected s (channel_name ra)" by (simp add: selected_def)
  show ?thesis
  proof (cases "channel_reader_map s (channel_name ra) = None")
    case True
    with FindNewChannel_fresh[OF assms(2) sel True, of e] show ?thesis by simp
  next
    case False
    have "FindNewChannel e ra s = Some s"
      using assms(2) sel False by (rule FindNewChannel_known)
    with False show ?thesis by (simp only: if_False)
  qed
qed

lemma FindNewChannel_ignores_channel_vec:
  assumes "all_channels s"
  shows "FindNewChannel e ra (s\<lparr>channel_vec := v\<rparr>) =
           map_option (\<lambda>t. t\<lparr>channel_vec := v\<rparr>) (FindNewChannel e ra s)"
proof (cases "usable ra")
  case False
  then have "\<not> has_channel_name ra \<or> channel_name ra = [] \<or>
             \<not> has_message_type ra \<or> message_type ra = [] \<or>
             \<not> has_proto_desc ra \<or> proto_desc ra = []"
    unfolding usable_iff by blast
  then show ?thesis
    unfolding FindNewChannel_def by (auto simp: emit_def)
next
  case True
  have all: "all_channels (s\<lparr>channel_vec := v\<rparr>)" using assms by simp
  show ?thesis
    unfolding FindNewChannel_all_channels[OF all True] FindNewChannel_all_channels[OF assms True]
    by (cases "writer s")
      (simp_all add: InitReaderImpl_channel_vec after_WriteChannel_channel_vec
        option.map_comp comp_def)
qed

text \<open>
  Claim C4. When \<open>all_channels_\<close> is false and the name of a descriptor is not in
  \<open>channel_vec_\<close>, \<open>FindNewChannel\<close> returns after one log line, and over any lifetime of
  a recorder constructed that way the name never gets an entry in the map, nor a call of
  \<open>WriteChannel\<close> or \<open>CreateReader\<close>. When \<open>all_channels_\<close> is true, what
  \<open>FindNewChannel\<close> does is the same whatever \<open>channel_vec_\<close> holds, and a usable
  descriptor goes past the policy check: the call ends at the map lookup for a known
  name, and goes on to \<open>WriteChannel\<close> and \<open>InitReaderImpl\<close> for a new one.
\<close>

theorem C4_selection_policy:
  "(\<not> selected s (channel_name ra) \<longrightarrow>
      (\<exists>sev line. FindNewChannel e ra s = Some (emit (Log sev line) s))) \<and>
   (run e ops (Recorder e out False vec) = Some s' \<and> n \<notin> set vec \<longrightarrow>
      never_subscribed s' n) \<and>
   (all_channels s \<longrightarrow>
      FindNewChannel e ra (s\<lparr>channel_vec := v\<rparr>) =
        map_option (\<lambda>t. t\<lparr>channel_vec := v\<rparr>) (FindNewChannel e ra s)) \<and>
   (all_channels s \<and> usable ra \<longrightarrow>
      FindNewChannel e ra s =
        (if channel_reader_map s (channel_name ra) = None then
           (case writer s of
              None \<Rightarrow> None
            | Some w \<Rightarrow> map_option snd
                (InitReaderImpl e (channel_name ra) (message_type ra)
                   (after_WriteChannel e ra s)))
         else Some s))"
proof (intro conjI impI)
  assume ns: "\<not> selected s (channel_name ra)"
  show "\<exists>sev line. FindNewChannel e ra s = Some (emit (Log sev line) s)"
  proof (cases "usable ra")
    case False
    from FindNewChannel_unusable[OF False, of e s] show ?thesis by blast
  next
    case True
    from FindNewChannel_unselected[OF True ns, of e] show ?thesis by blast
  qed
next
  assume a: "run e ops (Recorder e out False vec) = Some s' \<and> n \<notin> set vec"
  then have "\<not> selected (Recorder e out False vec) n"
    by (simp add: selected_def Recorder_def)
  with a run_keeps[of e ops "Recorder e out False vec" s']
    Recorder_never_subscribed[of e out False vec n]
  show "never_subscribed s' n" by (simp add: keeps_def)
next
  assume "all_channels s"
  then show "FindNewChannel e ra (s\<lparr>channel_vec := v\<rparr>) =
        map_option (\<lambda>t. t\<lparr>channel_vec := v\<rparr>) (FindNewChannel e ra s)"
    by (rule FindNewChannel_ignores_channel_vec)
next
  assume "all_channels s \<and> usable ra"
  then show "FindNewChannel e ra s =
        (if channel_reader_map s (channel_name ra) = None then
           (case writer s of
              None \<Rightarrow> None
            | Some w \<Rightarrow> map_option snd
                (InitReaderImpl e (channel_name ra) (message_type ra)
                   (after_WriteChannel e ra s)))
         else Some s)"
    by (simp add: FindNewChannel_all_channels)
qed

lemma run_filtered_session:
  "map_option (\<lambda>s. (channel_reader_map s ''a'', channel_reader_map s ''c'', trace s))
     (run env_ac [OpStart, OpTopologyCallback (writer_of descriptor_c)] filtered_session) =
   Some (Some (Reader ''a'' 50), None,
     [WriterOpen ''out.record'' True,
      CreateNode ''cyber_recorder_record_4242'' True,
      GetWriters,
      WriteChannel ''a'' ''T'' ''S'' True,
      CreateReader ''a'' 50 True,
      Log DEBUG ''New channel was found, but not in record list.'',
      AddChangeListener True,
      Log DEBUG ''ChangeMsg in Topology Callback:'',
      Log DEBUG ''New channel was found, but not in record list.''])"
  by (simp add: Start_def TopologyCallback_def filtered_session_def Recorder_def
      env_ac_def env_ok_def InitReadersImpl_def FindNewChannel_def InitReaderImpl_def
      descriptor_a_def descriptor_c_def writer_of_def emit_def
      has_channel_name_def channel_name_def has_message_type_def message_type_def
      has_proto_desc_def proto_desc_def to_string_pid Let_def)

theorem C4_selection_policy_witness:
  "(\<exists>s. run env_ac [OpStart, OpTopologyCallback (writer_of descriptor_c)] filtered_session
          = Some s \<and>
        never_subscribed s ''c'' \<and> channel_reader_map s ''a'' = Some (Reader ''a'' 50)) \<and>
   FindNewChannel env_ac descriptor_c filtered_session =
     Some (emit (Log DEBUG ''New channel was found, but not in record list.'')
             filtered_session) \<and>
   FindNewChannel env_ok pose (started_session\<lparr>channel_vec := [''a'', ''b'']\<rparr>) =
     map_option (\<lambda>t. t\<lparr>channel_vec := [''a'', ''b'']\<rparr>)
       (FindNewChannel env_ok pose started_session) \<and>
   FindNewChannel env_ok chatter started_session = Some started_session"
proof -
  let ?ops = "[OpStart, OpTopologyCallback (writer_of descriptor_c)]"
  from run_filtered_session obtain s where
    s: "run env_ac ?ops filtered_session = Some s"
      "channel_reader_map s ''a'' = Some (Reader ''a'' 50)"
    by auto
  have c: "''c'' \<notin> set [''a'', ''b'']" by simp
  from C4_selection_policy[of _ _ env_ac ?ops "''out.record''" "[''a'', ''b'']" s "''c''"]
    s(1) c
  have never: "never_subscribed s ''c''" by (simp add: filtered_session_def)
  have ns: "\<not> selected filtered_session (channel_name descriptor_c)"
    by (simp add: selected_def filtered_session_def Recorder_def descriptor_c_def
        channel_name_def)
  from C4_selection_policy[of filtered_session descriptor_c env_ac] ns
  obtain sev line where
    "FindNewChannel env_ac descriptor_c filtered_session =
       Some (emit (Log sev line) filtered_session)"
    by blast
  moreover have "FindNewChannel env_ac descriptor_c filtered_session =
     Some (emit (Log DEBUG ''New channel was found, but not in record list.'')
             filtered_session)"
    by (simp add: FindNewChannel_def filtered_session_def Recorder_def descriptor_c_def
        has_channel_name_def channel_name_def has_message_type_def message_type_def
        has_proto_desc_def proto_desc_def)
  ultimately have rej: "FindNewChannel env_ac descriptor_c filtered_session =
     Some (emit (Log DEBUG ''New channel was found, but not in record list.'')
             filtered_session)"
    by simp
  have allc: "all_channels started_session" "usable chatter"
    "channel_reader_map started_session (channel_name chatter) \<noteq> None"
    by (simp_all add: started_session_def usable_def chatter_def channel_name_def)
  from C4_selection_policy[of started_session pose env_ok _ _ _ _ _ "[''a'', ''b'']"] allc(1)
  have ign: "FindNewChannel env_ok pose (started_session\<lparr>channel_vec := [''a'', ''b'']\<rparr>) =
     map_option (\<lambda>t. t\<lparr>channel_vec := [''a'', ''b'']\<rparr>)
       (FindNewChannel env_ok pose started_session)"
    by blast
  from C4_selection_policy[of started_session chatter env_ok] allc
  have "FindNewChannel env_ok chatter started_session = Some started_session"
    by simp
  with s never rej ign show ?thesis by blast
qed

subsection \<open>A started session has its writer\<close>

text \<open>
  Several of the properties above are stated for a session whose writer exists. Over a
  lifetime that is no restriction for a started session: \<open>Start\<close> creates the writer
  before anything else, and nothing resets it.
\<close>

lemma Start_has_writer:
  assumes "Start e s = Some (r, s')"
  shows "writer s' \<noteq> None"
proof -
  let ?s2 = "emit (WriterOpen (output_file s) True) (s\<lparr>writer := Some RecordWriter\<rparr>)"
  let ?name = "''cyber_recorder_record_'' @ to_string (getpid e)"
  let ?s3 = "(emit (CreateNode ?name True) ?s2)\<lparr>node := Some (Node ?name)\<rparr>"
  consider (early) "writer s' = Some RecordWriter"
    | (init) ok s4 where "InitReadersImpl e ?s3 = Some (ok, s4)" "writer s' = writer s4"
    using assms
    by (auto simp: Start_def Let_def emit_def split: if_splits option.splits)
  then show ?thesis
  proof cases
    case early
    then show ?thesis by simp
  next
    case init
    from InitReadersImpl_frame[OF init(1)] init(2) show ?thesis by simp
  qed
qed

lemma step_started_has_writer:
  assumes "step e x s = Some s'" "is_started s \<longrightarrow> writer s \<noteq> None"
  shows "is_started s' \<longrightarrow> writer s' \<noteq> None"
proof (cases x)
  case OpStart
  with assms(1) obtain r where "Start e s = Some (r, s')" by auto
  then show ?thesis by (simp add: Start_has_writer)
next
  case OpStop
  with assms show ?thesis
    by (auto simp: Stop_def FreeReadersImpl_def emit_def Let_def split: if_splits option.splits)
next
  case (OpTopologyCallback m)
  let ?s1 = "emit (Log DEBUG ''ChangeMsg in Topology Callback:'') s"
  show ?thesis
  proof (cases "role_type m = ROLE_WRITER")
    case True
    with assms(1) OpTopologyCallback have "FindNewChannel e (role_attr m) ?s1 = Some s'"
      by (simp add: TopologyCallback_def Let_def)
    from FindNewChannel_frame[OF this] assms(2) show ?thesis by simp
  next
    case False
    with assms OpTopologyCallback show ?thesis
      by (auto simp: TopologyCallback_def Let_def)
  qed
next
  case (OpCallback cname msg)
  with assms show ?thesis
    by (auto simp: callback_def ReaderCallback_def emit_def Let_def
        split: if_splits option.splits)
qed

lemma run_started_has_writer:
  assumes "run e ops s = Some s'" "is_started s \<longrightarrow> writer s \<noteq> None"
  shows "is_started s' \<longrightarrow> writer s' \<noteq> None"
  using assms
proof (induction ops arbitrary: s)
  case Nil
  then show ?case by simp
next
  case (Cons x xs)
  then obtain s1 where s1: "step e x s = Some s1" "run e xs s1 = Some s'"
    by (auto split: option.splits)
  from step_started_has_writer[OF s1(1) Cons.prems(2)] Cons.IH[OF s1(2)] show ?case by blast
qed

lemma lifetime_started_has_writer:
  assumes "run e ops (Recorder e out allc vec) = Some s" "is_started s"
  shows "writer s \<noteq> None"
  using run_started_has_writer[OF assms(1)] assms(2) by (simp add: Recorder_def)

end
